theory Spec2Isabelle
  imports Main "HOL-Library.Word"
begin

unbundle bit_operations_syntax

section \<open>The modem firmware of cc430-modem.c as a state transformer\<close>

text \<open>
  The firmware keeps all of its state in global variables and advances in three interrupt
  handlers and one main loop. The model below keeps the source's names. Every
  \<^verbatim>\<open>unsigned char\<close> is an 8-bit word, every array is a list of the declared size, and an
  access outside an array (undefined behaviour in C) is the value \<open>Inl BufferOverrun\<close>:
  a handler that commits one returns no state at all. The set-up of the clock, the pins
  and the LEDs, and the LED switching, touch none of the variables below and are left out.
\<close>

type_synonym u8 = "8 word"

definition PAYLOAD_LEN :: nat where
  "PAYLOAD_LEN = 32"

definition PACKET_LEN :: nat where
  "PACKET_LEN = PAYLOAD_LEN + 3"

definition UART_BUF_LEN :: nat where
  "UART_BUF_LEN = PAYLOAD_LEN * 3"

definition CRC_OK :: u8 where
  "CRC_OK = 0x80"

definition CC430_STATE_IDLE :: u8 where
  "CC430_STATE_IDLE = 0x00"

definition CC430_STATE_MASK :: u8 where
  "CC430_STATE_MASK = 0x70"

definition UART_RX_NEWDATA_TIMEOUT_MS :: nat where
  "UART_RX_NEWDATA_TIMEOUT_MS = 4"

text \<open>The characters the source names: newline, space, the placeholder X, the digit 0.\<close>

definition NL :: u8 where
  "NL = 10"

definition SP :: u8 where
  "SP = 32"

definition CHR_X :: u8 where
  "CHR_X = 88"

definition CHR_0 :: u8 where
  "CHR_0 = 48"

datatype fault = BufferOverrun

text \<open>
  The globals of the source (lines 51-75) that the code reads, followed by the hardware
  the handlers drive (\<open>packetReceived\<close>, \<open>packetTransmit\<close> and \<open>RfTxBuffer_i\<close> are never
  used):
  whether Timer1 counts (\<open>TA1CTL\<close> in up mode, stopped by \<open>TACLR\<close>), its compare value,
  whether the radio's end-of-packet interrupt RFIFG9 is enabled in \<open>RF1AIE\<close>, the frames
  written to the radio's transmit FIFO and strobed with STX, the bytes written to the
  serial transmit register \<open>UCA0TXBUF\<close>, and the number of radio resets.
\<close>

record modem =
  UartRxBuffer :: "u8 list"
  UartRxBuffer_i :: u8
  UartTxBuffer :: "u8 list"
  UartTxBuffer_i :: u8
  UartTxBufferLength :: u8
  uart_rx_timeout :: u8
  RfRxBuffer :: "u8 list"
  RfRxBufferLength :: u8
  RfTxBuffer :: "u8 list"
  data_to_send :: u8
  rf_error :: u8
  rf_transmitting :: u8
  rf_receiving :: u8
  timer_running :: bool
  TA1CCR0 :: nat
  rfifg9_enabled :: bool
  rf_txfifo :: "u8 list list"
  UCA0TXBUF :: "u8 list"
  radio_resets :: nat

definition init_modem :: modem where
  "init_modem =
     \<lparr> UartRxBuffer = replicate UART_BUF_LEN 0, UartRxBuffer_i = 0,
       UartTxBuffer = replicate UART_BUF_LEN 0, UartTxBuffer_i = 0,
       UartTxBufferLength = 0, uart_rx_timeout = 0,
       RfRxBuffer = replicate PACKET_LEN 0, RfRxBufferLength = 0,
       RfTxBuffer = replicate PACKET_LEN 0,
       data_to_send = 0, rf_error = 0, rf_transmitting = 0, rf_receiving = 0,
       timer_running = False, TA1CCR0 = 0, rfifg9_enabled = False,
       rf_txfifo = [], UCA0TXBUF = [], radio_resets = 0 \<rparr>"

subsection \<open>Array accesses\<close>

definition load :: "u8 list \<Rightarrow> nat \<Rightarrow> fault + u8" where
  "load a i = (if i < length a then Inr (a ! i) else Inl BufferOverrun)"

definition store :: "u8 list \<Rightarrow> nat \<Rightarrow> u8 \<Rightarrow> fault + u8 list" where
  "store a i v = (if i < length a then Inr (a[i := v]) else Inl BufferOverrun)"

text \<open>Sequencing: the first overrun ends the computation.\<close>

definition and_then :: "fault + 'a \<Rightarrow> ('a \<Rightarrow> fault + 'b) \<Rightarrow> fault + 'b" where
  "and_then m f = (case m of Inl e \<Rightarrow> Inl e | Inr x \<Rightarrow> f x)"

subsection \<open>The flush timer (lines 722-743)\<close>

definition timer_set :: "nat \<Rightarrow> modem \<Rightarrow> modem" where
  "timer_set ms s =
     s\<lparr> TA1CCR0 := (if ms > 195 then 195 else ms) * 128, timer_running := True \<rparr>"

definition timer_clear :: "modem \<Rightarrow> modem" where
  "timer_clear s = s\<lparr> timer_running := False, uart_rx_timeout := 0 \<rparr>"

subsection \<open>Radio commands (lines 367-422)\<close>

text \<open>
  Modelled from the spec: \<open>WriteBurstReg\<close> and \<open>Strobe\<close>, which \<open>RfTransmit\<close> calls, are
  not in the source file. By the spec's hardware adapter, \<open>transmit(frame)\<close> hands the
  frame to the radio: \<open>RfTransmit\<close> enables RFIFG9, writes \<open>length\<close> bytes of the buffer
  to the transmit FIFO and strobes STX. Reading past the end of the buffer is an overrun.
\<close>

definition RfTransmit :: "u8 list \<Rightarrow> u8 \<Rightarrow> modem \<Rightarrow> fault + modem" where
  "RfTransmit buffer len s =
     (if unat len \<le> length buffer
      then Inr (s\<lparr> rfifg9_enabled := True,
                    rf_txfifo := rf_txfifo s @ [take (unat len) buffer] \<rparr>)
      else Inl BufferOverrun)"

definition RfReceiveOn :: "modem \<Rightarrow> modem" where
  "RfReceiveOn s = s\<lparr> rfifg9_enabled := True \<rparr>"

definition RfReceiveOff :: "modem \<Rightarrow> modem" where
  "RfReceiveOff s = s\<lparr> rfifg9_enabled := False \<rparr>"

subsection \<open>\<open>handle_uart_rx_byte\<close> (lines 466-496)\<close>

text \<open>The received byte \<open>UCA0RXBUF\<close> is the argument; the result carries the return value.\<close>

definition handle_uart_rx_byte :: "modem \<Rightarrow> u8 \<Rightarrow> fault + (modem \<times> nat)" where
  "handle_uart_rx_byte s tmpchar =
     (let s1 = timer_clear s in
      if unat (UartRxBuffer_i s1) = UART_BUF_LEN then Inr (s1, 0)
      else
        (case store (UartRxBuffer s1) (unat (UartRxBuffer_i s1)) tmpchar of
           Inl e \<Rightarrow> Inl e
         | Inr buf \<Rightarrow>
             (let s2 = s1\<lparr> UartRxBuffer := buf, UartRxBuffer_i := UartRxBuffer_i s1 + 1 \<rparr> in
              if tmpchar = NL
              then Inr (s2\<lparr> data_to_send := UartRxBuffer_i s2 \<rparr>, 1)
              else Inr (timer_set UART_RX_NEWDATA_TIMEOUT_MS s2, 0))))"

subsection \<open>\<open>send_next_msg\<close> (lines 140-205)\<close>

text \<open>
  The scan of lines 154-159. The counter \<open>x\<close> is a \<^verbatim>\<open>signed char\<close>; it stays below the
  array size 96, where the read is an overrun, so it never wraps. The result is the
  value of \<open>len\<close>: the position after the first newline, or -1.
\<close>

function find_newline :: "u8 list \<Rightarrow> nat \<Rightarrow> nat \<Rightarrow> fault + int" where
  "find_newline buf x n =
     (if x < n
      then (case load buf x of
              Inl e \<Rightarrow> Inl e
            | Inr c \<Rightarrow> if c = NL then Inr (int x + 1) else find_newline buf (x + 1) n)
      else Inr (- 1))"
  by pat_completeness auto
termination
  by (relation "measure (\<lambda>(buf, x, n). n - x)") auto

text \<open>
  Lines 148-160: the message length. \<open>len\<close> is a \<^verbatim>\<open>signed char\<close>, so the buffer index is
  read as a signed byte.
\<close>

definition msg_len :: "modem \<Rightarrow> fault + int" where
  "msg_len s =
     (if uart_rx_timeout s = 1 then Inr (sint (UartRxBuffer_i s))
      else find_newline (UartRxBuffer s) 0 (unat (data_to_send s)))"

text \<open>Lines 174-176: copy \<open>len\<close> bytes of the serial buffer behind the length byte.\<close>

function copy_to_rf :: "u8 list \<Rightarrow> u8 list \<Rightarrow> nat \<Rightarrow> int \<Rightarrow> fault + u8 list" where
  "copy_to_rf rx tx x len =
     (if int x < len
      then (case load rx x of
              Inl e \<Rightarrow> Inl e
            | Inr c \<Rightarrow>
                (case store tx (x + 1) c of
                   Inl e \<Rightarrow> Inl e
                 | Inr tx' \<Rightarrow> copy_to_rf rx tx' (x + 1) len))
      else Inr tx)"
  by pat_completeness auto
termination
  by (relation "measure (\<lambda>(rx, tx, x, len). nat (len - int x))") auto

text \<open>
  Lines 180-182: move the residual bytes to the front. The bound
  \<open>UartRxBuffer_i - len\<close> is computed in \<^verbatim>\<open>int\<close>; an index \<open>x + len\<close> below 0 is an
  overrun like one above the array.
\<close>

function shift_rx :: "u8 list \<Rightarrow> nat \<Rightarrow> int \<Rightarrow> int \<Rightarrow> fault + u8 list" where
  "shift_rx rx x len bound =
     (if int x < bound
      then (if int x + len < 0 then Inl BufferOverrun
            else (case load rx (nat (int x + len)) of
                    Inl e \<Rightarrow> Inl e
                  | Inr c \<Rightarrow>
                      (case store rx x c of
                         Inl e \<Rightarrow> Inl e
                       | Inr rx' \<Rightarrow> shift_rx rx' (x + 1) len bound)))
      else Inr rx)"
  by pat_completeness auto
termination
  by (relation "measure (\<lambda>(rx, x, len, bound). nat (bound - int x))") auto

text \<open>Lines 179-188: the residual bytes, or the cleared buffer.\<close>

definition consume_msg :: "modem \<Rightarrow> int \<Rightarrow> fault + modem" where
  "consume_msg s len =
     (if len \<noteq> uint (UartRxBuffer_i s)
      then and_then (shift_rx (UartRxBuffer s) 0 len (uint (UartRxBuffer_i s) - len))
             (\<lambda>rx. Inr (s\<lparr> UartRxBuffer := rx,
                            UartRxBuffer_i := UartRxBuffer_i s - word_of_int len \<rparr>))
      else Inr (s\<lparr> UartRxBuffer_i := 0, data_to_send := 0 \<rparr>))"

text \<open>Lines 190-199: leave receive mode, then transmit \<open>RfTxBuffer[0] + 1\<close> bytes.\<close>

definition start_transmit :: "modem \<Rightarrow> fault + modem" where
  "start_transmit s =
     (let s1 = (if rf_receiving s \<noteq> 0 then (RfReceiveOff s)\<lparr> rf_receiving := 0 \<rparr> else s);
          s2 = s1\<lparr> rf_transmitting := 1 \<rparr>
      in and_then (load (RfTxBuffer s2) 0)
           (\<lambda>b. RfTransmit (RfTxBuffer s2) (b + 1) s2))"

definition send_next_msg :: "modem \<Rightarrow> fault + (modem \<times> nat)" where
  "send_next_msg s =
     and_then (msg_len s)
       (\<lambda>len.
          let s1 = (if uart_rx_timeout s = 1 then s\<lparr> uart_rx_timeout := 0 \<rparr> else s) in
          if len = 0 \<or> len = - 1
          then Inr (s1\<lparr> data_to_send := 0, UartRxBuffer_i := 0 \<rparr>, 1)
          else
            and_then (store (RfTxBuffer s1) 0 (word_of_int len))
              (\<lambda>tx0. and_then (copy_to_rf (UartRxBuffer s1) tx0 0 len)
                 (\<lambda>tx. and_then (consume_msg (s1\<lparr> RfTxBuffer := tx \<rparr>) len)
                    (\<lambda>s2. and_then (start_transmit s2) (\<lambda>s3. Inr (s3, 0))))))"

subsection \<open>\<open>sc_itoa\<close> (lines 639-686)\<close>

text \<open>
  The string \<open>str\<close> points into an array: the model takes the array and the offset of
  \<open>str\<close> in it. Lines 655-661 write the digits backwards from \<open>str[len - 1]\<close> and
  return the last value of \<open>index\<close>.
\<close>

function itoa_digits :: "u8 list \<Rightarrow> nat \<Rightarrow> int \<Rightarrow> int \<Rightarrow> fault + (u8 list \<times> int)" where
  "itoa_digits a off index v =
     (if 0 \<le> index - 1
      then (case store a (off + nat (index - 1)) (word_of_int (v mod 10) + CHR_0) of
              Inl e \<Rightarrow> Inl e
            | Inr a' \<Rightarrow>
                if v < 10 then Inr (a', index - 1)
                else itoa_digits a' off (index - 1) (v div 10))
      else Inr (a, index - 1))"
  by pat_completeness auto
termination
  by (relation "measure (\<lambda>(a, off, index, v). nat index)") auto

text \<open>Lines 678-680: move the digits to the start of the string.\<close>

function itoa_move :: "u8 list \<Rightarrow> nat \<Rightarrow> nat \<Rightarrow> nat \<Rightarrow> nat \<Rightarrow> int \<Rightarrow> fault + u8 list" where
  "itoa_move a off start extra i n =
     (if int i < n
      then (case load a (off + (i + extra)) of
              Inl e \<Rightarrow> Inl e
            | Inr c \<Rightarrow>
                (case store a (off + (i + start)) c of
                   Inl e \<Rightarrow> Inl e
                 | Inr a' \<Rightarrow> itoa_move a' off start extra (i + 1) n))
      else Inr a)"
  by pat_completeness auto
termination
  by (relation "measure (\<lambda>(a, off, start, extra, i, n). nat (n - int i))") auto

text \<open>
  The callers pass an \<^verbatim>\<open>unsigned char\<close>, so \<open>value\<close> is in 0..255 and the negation of
  line 650 never overflows; the branch is kept as the source has it.
\<close>

definition sc_itoa :: "int \<Rightarrow> u8 list \<Rightarrow> nat \<Rightarrow> int \<Rightarrow> fault + (u8 list \<times> int)" where
  "sc_itoa v0 a off len =
     (let negative = (v0 < 0);
          v = (if negative then - v0 else v0);
          start = (if negative then 1 else 0 :: nat)
      in and_then (itoa_digits a off len v)
           (\<lambda>(a1, index).
              if index < 1 \<or> (negative \<and> index < 2)
              then and_then (store a1 off 0) (\<lambda>a2. Inr (a2, 0))
              else
                and_then (if negative then store a1 off 45 else Inr a1)
                  (\<lambda>a2. and_then (itoa_move a2 off start (nat index) 0 (len - index))
                     (\<lambda>a3. let str_len = len - index + int start in
                        and_then (store a3 (off + nat str_len) 0)
                          (\<lambda>a4. Inr (a4, str_len))))))"

subsection \<open>\<open>handle_rf_rx_packet\<close> (lines 549-633)\<close>

text \<open>
  The hardware's answers are arguments: \<open>RxStatus\<close> is the status byte of the SNOP strobe
  and \<open>fifo\<close> the content of the receive FIFO, whose length the register RXBYTES reports.
\<close>

text \<open>
  Modelled from the spec: \<open>ReadBurstReg\<close> is not in the source file. By the spec's
  hardware adapter, \<open>readReceivedFrame\<close> returns the bytes of the received frame:
  \<open>ReadBurstReg\<close> copies \<open>count\<close> bytes of the FIFO into the buffer, and writing
  past the end of the buffer is an overrun.
\<close>

definition ReadBurstReg :: "u8 list \<Rightarrow> u8 list \<Rightarrow> nat \<Rightarrow> fault + u8 list" where
  "ReadBurstReg fifo buffer count =
     (if count \<le> length buffer then Inr (take count fifo @ drop count buffer)
      else Inl BufferOverrun)"

text \<open>The two labels at the end of the function.\<close>

definition failed_to_receive :: "modem \<Rightarrow> modem" where
  "failed_to_receive s = s\<lparr> RfRxBufferLength := 0 \<rparr>"

definition rx_error :: "modem \<Rightarrow> modem" where
  "rx_error s = failed_to_receive (s\<lparr> rf_error := 1 \<rparr>)"

text \<open>Lines 587-589: the payload, without the length byte and the two status bytes.\<close>

function append_payload :: "u8 list \<Rightarrow> u8 list \<Rightarrow> nat \<Rightarrow> nat \<Rightarrow> int \<Rightarrow> fault + u8 list" where
  "append_payload rf ut base x bound =
     (if int x < bound
      then (case load rf (x + 1) of
              Inl e \<Rightarrow> Inl e
            | Inr c \<Rightarrow>
                (case store ut (base + x) c of
                   Inl e \<Rightarrow> Inl e
                 | Inr ut' \<Rightarrow> append_payload rf ut' base (x + 1) bound))
      else Inr ut)"
  by pat_completeness auto
termination
  by (relation "measure (\<lambda>(rf, ut, base, x, bound). nat (bound - int x))") auto

text \<open>
  Lines 592-605 and 607-620 are the same block, once for the signal strength with a
  space behind it and once for the last status byte with a newline behind it.
\<close>

definition append_diag :: "modem \<Rightarrow> u8 \<Rightarrow> u8 \<Rightarrow> fault + modem" where
  "append_diag s v sep =
     (let base = unat (UartTxBufferLength s);
          max_len = (word_of_nat UART_BUF_LEN - UartTxBufferLength s :: u8)
      in and_then (sc_itoa (uint v) (UartTxBuffer s) base (uint max_len))
           (\<lambda>(a1, r).
              and_then (if r = 0 then store a1 base CHR_X else Inr a1)
                (\<lambda>a2. let len = (if r = 0 then r + 1 else r) in
                   and_then (store a2 (base + nat len) sep)
                     (\<lambda>a3. Inr (s\<lparr> UartTxBuffer := a3,
                                    UartTxBufferLength :=
                                      UartTxBufferLength s + word_of_int (len + 1) \<rparr>)))))"

text \<open>Lines 586-625: the payload, the two diagnostic blocks, the first byte to the UART.\<close>

definition append_frame :: "modem \<Rightarrow> nat \<Rightarrow> fault + modem" where
  "append_frame s n =
     and_then (append_payload (RfRxBuffer s) (UartTxBuffer s)
                 (unat (UartTxBufferLength s)) 0 (int n - 3))
       (\<lambda>ut. let s3 = s\<lparr> UartTxBuffer := ut,
                           UartTxBufferLength :=
                             UartTxBufferLength s + (RfRxBufferLength s - 3) \<rparr> in
          and_then (load (RfRxBuffer s3) (n - 2))
            (\<lambda>rssi. and_then (append_diag s3 rssi SP)
               (\<lambda>s4. and_then (load (RfRxBuffer s4) (n - 1))
                  (\<lambda>lqi. and_then (append_diag s4 lqi NL)
                     (\<lambda>s5. and_then (load (UartTxBuffer s5) (unat (UartTxBuffer_i s5)))
                        (\<lambda>c. Inr (s5\<lparr> UCA0TXBUF := UCA0TXBUF s5 @ [c] \<rparr>)))))))"

definition handle_rf_rx_packet :: "modem \<Rightarrow> u8 \<Rightarrow> u8 list \<Rightarrow> fault + modem" where
  "handle_rf_rx_packet s0 RxStatus fifo =
     (let s = s0\<lparr> rf_receiving := 0 \<rparr> in
      if RxStatus AND CC430_STATE_MASK \<noteq> CC430_STATE_IDLE
      then Inr (rx_error (s\<lparr> rf_error := 1 \<rparr>))
      else
        (let s1 = s\<lparr> RfRxBufferLength := word_of_nat (length fifo) \<rparr>;
             n = unat (RfRxBufferLength s1)
         in if n < 5 then Inr (rx_error s1)
            else
              and_then (ReadBurstReg fifo (RfRxBuffer s1) n)
                (\<lambda>rf. let s2 = s1\<lparr> RfRxBuffer := rf \<rparr> in
                   and_then (load rf (n - 1))
                     (\<lambda>crc.
                        if crc AND CRC_OK = 0 then Inr (rx_error s2)
                        else if unat (UartTxBufferLength s2) + (n - 3) > UART_BUF_LEN
                        then Inr (failed_to_receive s2)
                        else append_frame s2 n))))"

subsection \<open>The interrupt handlers\<close>

text \<open>
  Each handler returns the new state and whether it clears the low-power bits of the
  saved status register on exit (\<open>__bic_SR_register_on_exit(LPM3_bits)\<close>), which is what
  lets the main loop run on after its \<open>__bis_status_register(LPM0_bits + GIE)\<close>.
  The interrupt vector register and the hardware's data are arguments.
\<close>

definition USCI_A0_ISR :: "modem \<Rightarrow> nat \<Rightarrow> u8 \<Rightarrow> fault + (modem \<times> bool)" where
  "USCI_A0_ISR s UCA0IV UCA0RXBUF =
     (if UCA0IV = 2
      then and_then (handle_uart_rx_byte s UCA0RXBUF) (\<lambda>(s', r). Inr (s', r \<noteq> 0))
      else if UCA0IV = 4
      then (if UartTxBufferLength s = 0 then Inr (s, False)
            else
              (let s1 = s\<lparr> UartTxBuffer_i := UartTxBuffer_i s + 1 \<rparr> in
               if UartTxBuffer_i s1 = UartTxBufferLength s1
               then Inr (s1\<lparr> UartTxBuffer_i := 0, UartTxBufferLength := 0 \<rparr>, False)
               else and_then (load (UartTxBuffer s1) (unat (UartTxBuffer_i s1)))
                      (\<lambda>c. Inr (s1\<lparr> UCA0TXBUF := UCA0TXBUF s1 @ [c] \<rparr>, False))))
      else Inr (s, False))"

definition CC1101_ISR :: "modem \<Rightarrow> nat \<Rightarrow> u8 \<Rightarrow> u8 list \<Rightarrow> fault + (modem \<times> bool)" where
  "CC1101_ISR s RF1AIV RxStatus fifo =
     (if RF1AIV = 20
      then (let s1 = s\<lparr> rfifg9_enabled := False \<rparr> in
            and_then (if rf_receiving s1 \<noteq> 0 then handle_rf_rx_packet s1 RxStatus fifo
                      else Inr s1)
              (\<lambda>s2. Inr (if rf_transmitting s2 \<noteq> 0 then s2\<lparr> rf_transmitting := 0 \<rparr>
                           else s2, True)))
      else Inr (s, True))"

definition TIMER1_A0_ISR :: "modem \<Rightarrow> modem \<times> bool" where
  "TIMER1_A0_ISR s =
     (let s1 = timer_clear s in
      (if UartRxBuffer_i s1 > 0 then s1\<lparr> data_to_send := 1, uart_rx_timeout := 1 \<rparr>
       else s1, False))"

subsection \<open>The main loop (lines 93-133)\<close>

text \<open>
  Lines 98-118. The wait for the idle state polls the radio and changes no variable; the
  block is one step, taken when the poll has succeeded. While the poll lasts the main loop
  is still before the block.
\<close>

definition main_listen :: "modem \<Rightarrow> modem" where
  "main_listen s =
     (if rf_transmitting s = 0 \<and> rf_receiving s = 0
      then (let s1 = RfReceiveOff s;
                s2 = (if rf_error s1 \<noteq> 0
                      then s1\<lparr> radio_resets := radio_resets s1 + 1, rf_error := 0 \<rparr>
                      else s1)
            in RfReceiveOn (s2\<lparr> rf_receiving := 1 \<rparr>))
      else s)"

text \<open>Lines 128-132.\<close>

definition main_dispatch :: "modem \<Rightarrow> fault + modem" where
  "main_dispatch s =
     (if rf_transmitting s = 0 \<and> data_to_send s \<noteq> 0
      then and_then (send_next_msg s) (\<lambda>(s', r). Inr s')
      else Inr s)"

subsection \<open>The firmware as a transition system\<close>

text \<open>
  The main loop is at one of three places: before the listening block, in the low-power
  wait, or before the dispatch block. An interrupt is served wherever the main loop is;
  it ends the low-power wait only if its handler clears the low-power bits on exit, and
  that has no effect outside the wait. The radio interrupt is delivered only while RFIFG9
  is enabled, the timer interrupt only while the timer counts. \<open>send_next_msg\<close> runs with
  interrupts disabled, and the handlers run to completion, so each is one step.
\<close>

datatype pc = AtListen | Asleep | AtDispatch

datatype event = UartRx u8 | UartTxReady | RadioIrq u8 "u8 list" | TimerIrq | MainStep

definition wake :: "pc \<Rightarrow> bool \<Rightarrow> pc" where
  "wake p w = (if w \<and> p = Asleep then AtDispatch else p)"

fun step :: "pc \<times> modem \<Rightarrow> event \<Rightarrow> fault + (pc \<times> modem)" where
  "step (p, s) (UartRx b) =
     and_then (USCI_A0_ISR s 2 b) (\<lambda>(s', w). Inr (wake p w, s'))"
| "step (p, s) UartTxReady =
     and_then (USCI_A0_ISR s 4 0) (\<lambda>(s', w). Inr (wake p w, s'))"
| "step (p, s) (RadioIrq RxStatus fifo) =
     (if rfifg9_enabled s
      then and_then (CC1101_ISR s 20 RxStatus fifo) (\<lambda>(s', w). Inr (wake p w, s'))
      else Inr (p, s))"
| "step (p, s) TimerIrq =
     (if timer_running s
      then (case TIMER1_A0_ISR s of (s', w) \<Rightarrow> Inr (wake p w, s'))
      else Inr (p, s))"
| "step (p, s) MainStep =
     (case p of
        AtListen \<Rightarrow> Inr (Asleep, main_listen s)
      | Asleep \<Rightarrow> Inr (Asleep, s)
      | AtDispatch \<Rightarrow> and_then (main_dispatch s) (\<lambda>s'. Inr (AtListen, s')))"

fun run :: "pc \<times> modem \<Rightarrow> event list \<Rightarrow> fault + (pc \<times> modem)" where
  "run c [] = Inr c"
| "run c (e # es) = (case step c e of Inl f \<Rightarrow> Inl f | Inr c' \<Rightarrow> run c' es)"

definition init_system :: "pc \<times> modem" where
  "init_system = (AtListen, init_modem)"

subsection \<open>The decimal text of a number\<close>

text \<open>
  The spec speaks of the decimal text of a byte. This is its definition, independent of
  \<open>sc_itoa\<close>: the digits of the number, most significant first, as ASCII characters.
\<close>

function decimal :: "nat \<Rightarrow> u8 list" where
  "decimal n =
     (if n < 10 then [word_of_nat n + CHR_0]
      else decimal (n div 10) @ [word_of_nat (n mod 10) + CHR_0])"
  by pat_completeness auto
termination
  by (relation "measure id") auto

text \<open>
  What a decoded frame adds to the Egress Buffer, as the code writes it: the payload, the
  decimal text of the signal strength, a space, the decimal text of the whole last status
  byte, a newline.
\<close>

definition egress_text :: "u8 list \<Rightarrow> u8 \<Rightarrow> u8 \<Rightarrow> u8 list" where
  "egress_text payload rssi crc =
     payload @ decimal (unat rssi) @ [SP] @ decimal (unat crc) @ [NL]"

text \<open>
  The same as the spec words it: the link quality is the last status byte with its high
  bit, the CRC flag, masked off.
\<close>

definition spec_egress_text :: "u8 list \<Rightarrow> u8 \<Rightarrow> u8 \<Rightarrow> u8 list" where
  "spec_egress_text payload rssi crc =
     payload @ decimal (unat rssi) @ [SP] @ decimal (unat (crc AND 0x7F)) @ [NL]"

text \<open>The bytes a handler appended to the Egress Buffer, from the old length to the new.\<close>

definition appended :: "modem \<Rightarrow> modem \<Rightarrow> u8 list" where
  "appended s s' =
     take (unat (UartTxBufferLength s') - unat (UartTxBufferLength s))
       (drop (unat (UartTxBufferLength s)) (UartTxBuffer s'))"

text \<open>The arrays have their declared sizes.\<close>

definition sized :: "modem \<Rightarrow> bool" where
  "sized s \<longleftrightarrow>
     length (UartRxBuffer s) = UART_BUF_LEN \<and> length (UartTxBuffer s) = UART_BUF_LEN \<and>
     length (RfRxBuffer s) = PACKET_LEN \<and> length (RfTxBuffer s) = PACKET_LEN"

text \<open>At most one of transmission and reception is active.\<close>

definition half_duplex :: "modem \<Rightarrow> bool" where
  "half_duplex s \<longleftrightarrow> rf_transmitting s = 0 \<or> rf_receiving s = 0"

subsection \<open>States of the scenarios\<close>

text \<open>
  The sender after the serial input A, newline, B, newline and before any dispatch
  (scenario 3 of the spec): the main loop listens and has been woken by the first newline.
\<close>

definition two_messages :: modem where
  "two_messages =
     init_modem\<lparr> UartRxBuffer := [65, 10, 66, 10] @ replicate 92 0, UartRxBuffer_i := 4,
                  data_to_send := 4, rf_receiving := 1, TA1CCR0 := 512,
                  rfifg9_enabled := True \<rparr>"

section \<open>What the loops compute\<close>

lemma and_then_Inr [simp]: "and_then (Inr x) f = f x"
  by (simp add: and_then_def)

lemma and_then_Inl [simp]: "and_then (Inl e) f = Inl e"
  by (simp add: and_then_def)

lemma load_in [simp]: "i < length a \<Longrightarrow> load a i = Inr (a ! i)"
  by (simp add: load_def)

lemma store_in [simp]: "i < length a \<Longrightarrow> store a i v = Inr (a[i := v])"
  by (simp add: store_def)

declare find_newline.simps [simp del] copy_to_rf.simps [simp del] shift_rx.simps [simp del]
  itoa_digits.simps [simp del] itoa_move.simps [simp del] append_payload.simps [simp del]

lemma window_step:
  "i < length xs \<Longrightarrow> i < m \<Longrightarrow> take (m - i) (drop i xs) = xs ! i # take (m - Suc i) (drop (Suc i) xs)"
  by (metis Cons_nth_drop_Suc Suc_diff_Suc take_Suc_Cons)

lemma copy_to_rf_eq:
  "int x \<le> len \<Longrightarrow> nat len \<le> length rx \<Longrightarrow> nat len < length tx \<Longrightarrow>
   copy_to_rf rx tx x len =
     Inr (take (Suc x) tx @ take (nat len - x) (drop x rx) @ drop (Suc (nat len)) tx)"
proof (induction rx tx x len rule: copy_to_rf.induct)
  case (1 rx tx x len)
  show ?case
  proof (cases "int x < len")
    case True
    then have b: "x < length rx" "Suc x < length tx" "x < nat len"
      using "1.prems" by auto
    have "copy_to_rf rx tx x len = copy_to_rf rx (tx[Suc x := rx ! x]) (Suc x) len"
      using True b by (subst copy_to_rf.simps) simp
    also have "\<dots> = Inr (take (Suc (Suc x)) (tx[Suc x := rx ! x]) @
                 take (nat len - Suc x) (drop (Suc x) rx) @
                 drop (Suc (nat len)) (tx[Suc x := rx ! x]))"
      using "1.IH" [of "rx ! x" "tx[Suc x := rx ! x]"] True b "1.prems" by simp
    also have "take (Suc (Suc x)) (tx[Suc x := rx ! x]) = take (Suc x) tx @ [rx ! x]"
      using b by (simp add: take_Suc_conv_app_nth)
    also have "drop (Suc (nat len)) (tx[Suc x := rx ! x]) = drop (Suc (nat len)) tx"
      using b by simp
    finally show ?thesis
      using window_step [of x rx "nat len"] b by simp
  next
    case False
    then have "nat len = x" using "1.prems" by auto
    then show ?thesis
      using False by (subst copy_to_rf.simps) simp
  qed
qed

lemma shift_rx_eq:
  "0 \<le> len \<Longrightarrow> int x \<le> bound \<Longrightarrow> nat bound + nat len \<le> length rx \<Longrightarrow>
   shift_rx rx x len bound =
     Inr (take x rx @ take (nat bound - x) (drop (x + nat len) rx) @ drop (nat bound) rx)"
proof (induction rx x len bound rule: shift_rx.induct)
  case (1 rx x len bound)
  show ?case
  proof (cases "int x < bound")
    case True
    define c where "c = rx ! (x + nat len)"
    have b: "x < nat bound" "x + nat len < length rx" "x < length rx" "\<not> int x + len < 0"
      "nat (int x + len) = x + nat len"
      using True "1.prems" by auto
    have "shift_rx rx x len bound = shift_rx (rx[x := c]) (Suc x) len bound"
      using True b by (subst shift_rx.simps) (simp add: c_def)
    also have "\<dots> = Inr (take (Suc x) (rx[x := c]) @
                 take (nat bound - Suc x) (drop (Suc x + nat len) (rx[x := c])) @
                 drop (nat bound) (rx[x := c]))"
      using "1.IH" [of c "rx[x := c]"] True b "1.prems" by (simp add: c_def)
    also have "take (Suc x) (rx[x := c]) = take x rx @ [c]"
      using b by (simp add: take_Suc_conv_app_nth)
    also have "drop (Suc x + nat len) (rx[x := c]) = drop (Suc x + nat len) rx"
      by simp
    also have "drop (nat bound) (rx[x := c]) = drop (nat bound) rx"
      using b by simp
    finally show ?thesis
      using window_step [of "x + nat len" rx "nat bound + nat len"] b
      by (simp add: c_def)
  next
    case False
    then have "nat bound = x" using "1.prems" by auto
    then show ?thesis
      using False by (subst shift_rx.simps) simp
  qed
qed

lemma append_payload_eq:
  "int x \<le> bound \<Longrightarrow> nat bound < length rf \<Longrightarrow> base + nat bound \<le> length ut \<Longrightarrow>
   append_payload rf ut base x bound =
     Inr (take (base + x) ut @ take (nat bound - x) (drop (Suc x) rf) @
          drop (base + nat bound) ut)"
proof (induction rf ut base x bound rule: append_payload.induct)
  case (1 rf ut base x bound)
  show ?case
  proof (cases "int x < bound")
    case True
    define c where "c = rf ! Suc x"
    have b: "x < nat bound" "Suc x < length rf" "base + x < length ut"
      using True "1.prems" by auto
    have "append_payload rf ut base x bound =
            append_payload rf (ut[base + x := c]) base (Suc x) bound"
      using True b by (subst append_payload.simps) (simp add: c_def)
    also have "\<dots> = Inr (take (base + Suc x) (ut[base + x := c]) @
                 take (nat bound - Suc x) (drop (Suc (Suc x)) rf) @
                 drop (base + nat bound) (ut[base + x := c]))"
      using "1.IH" [of c "ut[base + x := c]"] True b "1.prems" by (simp add: c_def)
    also have "take (base + Suc x) (ut[base + x := c]) = take (base + x) ut @ [c]"
      using b by (simp add: take_Suc_conv_app_nth)
    also have "drop (base + nat bound) (ut[base + x := c]) = drop (base + nat bound) ut"
      using b by simp
    finally show ?thesis
      using window_step [of "Suc x" rf "Suc (nat bound)"] b
      by (simp add: c_def)
  next
    case False
    then have "nat bound = x" using "1.prems" by auto
    then show ?thesis
      using False by (subst append_payload.simps) simp
  qed
qed


declare decimal.simps [simp del]

lemma decimal_nonempty: "0 < length (decimal n)"
  by (subst decimal.simps) simp

lemma update_as_append: "k < length a \<Longrightarrow> a[k := d] = take k a @ [d] @ drop (Suc k) a"
  by (simp add: upd_conv_take_nth_drop)

lemma itoa_digits_eq:
  "0 \<le> v \<Longrightarrow> length (decimal (nat v)) \<le> nat index \<Longrightarrow> off + nat index \<le> length a \<Longrightarrow>
   itoa_digits a off index v =
     Inr (take (off + nat index - length (decimal (nat v))) a @ decimal (nat v) @
            drop (off + nat index) a,
          index - int (length (decimal (nat v))))"
proof (induction a off index v rule: itoa_digits.induct)
  case (1 a off index v)
  define k where "k = off + nat (index - 1)"
  define d where "d = (word_of_int (v mod 10) + CHR_0 :: u8)"
  have pos: "1 \<le> index"
    using "1.prems" decimal_nonempty [of "nat v"] by linarith
  have k: "k < length a" "Suc k = off + nat index"
    using pos "1.prems" by (auto simp: k_def)
  have "word_of_int (v mod 10) = (word_of_nat (nat (v mod 10)) :: u8)"
    by (rule word_of_int_nat) (use "1.prems"(1) in simp)
  then have dig: "d = word_of_nat (nat v mod 10) + CHR_0"
    using "1.prems"(1) by (simp add: d_def nat_mod_distrib)
  show ?case
  proof (cases "v < 10")
    case True
    then have small: "nat v < 10" "nat v mod 10 = nat v"
      using "1.prems"(1) by auto
    have dec: "decimal (nat v) = [d]"
      by (subst decimal.simps) (simp add: small dig)
    have "itoa_digits a off index v = Inr (a[k := d], index - 1)"
      using pos k True by (subst itoa_digits.simps) (simp add: k_def d_def)
    moreover have "off + nat index - length (decimal (nat v)) = k"
      using k dec by simp
    ultimately show ?thesis
      using k dec update_as_append [of k a d] by simp
  next
    case False
    then have big: "\<not> nat v < 10" "nat (v div 10) = nat v div 10"
      using "1.prems"(1) by (auto simp: nat_div_distrib)
    have dec: "decimal (nat v) = decimal (nat (v div 10)) @ [d]"
      by (subst decimal.simps) (simp add: big dig)
    let ?m = "length (decimal (nat (v div 10)))"
    have m: "?m \<le> nat (index - 1)"
      using "1.prems"(2) dec by simp
    have "itoa_digits a off index v = itoa_digits (a[k := d]) off (index - 1) (v div 10)"
      using pos k False by (subst itoa_digits.simps) (simp add: k_def d_def)
    also have "\<dots> = Inr (take (k - ?m) (a[k := d]) @ decimal (nat (v div 10)) @
                    drop k (a[k := d]), index - 1 - int ?m)"
    proof -
      have p1: "0 \<le> index - 1"
        using pos by simp
      have p2: "store a (off + nat (index - 1)) (word_of_int (v mod 10) + CHR_0) =
                  Inr (a[k := d])"
        using k by (simp add: k_def d_def)
      have p4: "0 \<le> v div 10"
        using "1.prems"(1) by simp
      have p6: "off + nat (index - 1) \<le> length (a[k := d])"
        using k by (simp add: k_def)
      show ?thesis
        using "1.IH" [OF p1 p2 False p4 m p6] by (simp only: k_def)
    qed
    also have "take (k - ?m) (a[k := d]) = take (k - ?m) a"
      by simp
    also have "drop k (a[k := d]) = d # drop (Suc k) a"
      using k by (simp add: update_as_append)
    finally have "itoa_digits a off index v =
        Inr (take (k - ?m) a @ decimal (nat (v div 10)) @ d # drop (Suc k) a,
             index - 1 - int ?m)" .
    moreover have "off + nat index - length (decimal (nat v)) = k - ?m"
      using k dec by simp
    ultimately show ?thesis
      using k dec by simp
  qed
qed

lemma itoa_move_eq:
  "int i \<le> n \<Longrightarrow> off + nat n + extra \<le> length a \<Longrightarrow>
   itoa_move a off 0 extra i n =
     Inr (take (off + i) a @ take (nat n - i) (drop (off + i + extra) a) @
          drop (off + nat n) a)"
proof (induction a off "0 :: nat" extra i n rule: itoa_move.induct)
  case (1 a off extra i n)
  show ?case
  proof (cases "int i < n")
    case True
    define c where "c = a ! (off + (i + extra))"
    have b: "i < nat n" "off + (i + extra) < length a" "off + i < length a"
      using True "1.prems" by auto
    have "itoa_move a off 0 extra i n = itoa_move (a[off + i := c]) off 0 extra (Suc i) n"
      using True b by (subst itoa_move.simps) (simp add: c_def)
    also have "\<dots> = Inr (take (off + Suc i) (a[off + i := c]) @
                 take (nat n - Suc i) (drop (off + Suc i + extra) (a[off + i := c])) @
                 drop (off + nat n) (a[off + i := c]))"
      using "1.hyps" [of c "a[off + i := c]"] True b "1.prems" by (simp add: c_def)
    also have "take (off + Suc i) (a[off + i := c]) = take (off + i) a @ [c]"
      using b by (simp add: take_Suc_conv_app_nth)
    also have "drop (off + Suc i + extra) (a[off + i := c]) = drop (off + Suc i + extra) a"
      by simp
    also have "drop (off + nat n) (a[off + i := c]) = drop (off + nat n) a"
      using b by simp
    finally show ?thesis
      using window_step [of "off + i + extra" a "off + nat n + extra"] b
      by (simp add: c_def add.assoc)
  next
    case False
    then have "nat n = i" using "1.prems" by auto
    then show ?thesis
      using False by (subst itoa_move.simps) simp
  qed
qed

lemma sc_itoa_fits:
  assumes v: "0 \<le> v"
    and room: "int (length (decimal (nat v))) + 1 \<le> len"
    and bound: "off + nat len \<le> length a"
  shows "\<exists>a'. sc_itoa v a off len = Inr (a', int (length (decimal (nat v)))) \<and>
              length a' = length a \<and> take off a' = take off a \<and>
              take (length (decimal (nat v))) (drop off a') = decimal (nat v)"
proof -
  define ds where "ds = decimal (nat v)"
  define d where "d = length ds"
  define e where "e = nat len - d"
  define a1 where "a1 = take (off + e) a @ ds @ drop (off + nat len) a"
  define a3 where "a3 = take off a1 @ take d (drop (off + e) a1) @ drop (off + d) a1"
  have d: "0 < d" "0 < e" "off + e + d \<le> length a" "nat len = e + d"
    "nat (len - int d) = e" "len - int d = int e" "len - int e = int d"
    using room bound decimal_nonempty [of "nat v"] by (auto simp: d_def ds_def e_def)
  have len1: "length a1 = length a"
    using d by (simp add: a1_def d_def)
  have dig: "itoa_digits a off len v = Inr (a1, int e)"
    using itoa_digits_eq [of v len off a] v room bound d
    by (simp add: a1_def d_def ds_def add.assoc)
  have mv: "itoa_move a1 off 0 e 0 (int d) = Inr a3"
    using itoa_move_eq [of 0 "int d" off e a1] d len1
    by (simp add: a3_def)
  have pre: "take off a1 = take off a"
    using d by (simp add: a1_def)
  have mid: "take d (drop (off + e) a1) = ds"
    using d by (simp add: a1_def d_def)
  have a3: "a3 = take off a @ ds @ drop (off + d) a1"
    by (simp add: a3_def pre mid)
  have len3: "length a3 = length a"
    using d len1 by (simp add: a3 d_def)
  have res: "sc_itoa v a off len = Inr (a3[off + d := 0], int d)"
    using v d dig mv len3
    by (simp add: sc_itoa_def Let_def)
  have "take off (a3[off + d := 0]) = take off a"
    using d by (simp add: a3)
  moreover have "take d (drop off (a3[off + d := 0])) = ds"
    using d by (simp add: a3 drop_update_swap d_def)
  ultimately show ?thesis
    using res len3 by (simp add: d_def ds_def)
qed

lemma take_Suc_drop_update:
  "take d (drop b a) = ds \<Longrightarrow> length ds = d \<Longrightarrow> b + d < length a \<Longrightarrow>
   take (Suc d) (drop b (a[b + d := c])) = ds @ [c]"
  by (simp add: take_Suc_conv_app_nth drop_update_swap)

lemma append_diag_fits:
  assumes len: "length (UartTxBuffer s) = UART_BUF_LEN"
    and room: "unat (UartTxBufferLength s) + length (decimal (unat v)) + 1 \<le> UART_BUF_LEN"
  shows "\<exists>a'. append_diag s v sep =
                Inr (s\<lparr> UartTxBuffer := a',
                        UartTxBufferLength :=
                          UartTxBufferLength s + word_of_nat (length (decimal (unat v)) + 1) \<rparr>) \<and>
              length a' = UART_BUF_LEN \<and>
              take (unat (UartTxBufferLength s)) a' =
                take (unat (UartTxBufferLength s)) (UartTxBuffer s) \<and>
              take (length (decimal (unat v)) + 1) (drop (unat (UartTxBufferLength s)) a') =
                decimal (unat v) @ [sep]"
proof -
  define b where "b = unat (UartTxBufferLength s)"
  define ds where "ds = decimal (unat v)"
  define d where "d = length ds"
  have bd: "b + d + 1 \<le> 96" "0 < d"
    using room decimal_nonempty [of "unat v"]
    by (simp_all add: b_def d_def ds_def UART_BUF_LEN_def PAYLOAD_LEN_def)
  have "UartTxBufferLength s \<le> 96"
    using bd by (simp add: word_le_nat_alt b_def)
  then have "unat (96 - UartTxBufferLength s) = 96 - b"
    by (simp add: unat_sub b_def)
  then have ml: "uint (word_of_nat UART_BUF_LEN - UartTxBufferLength s) = int (96 - b)"
    by (simp add: UART_BUF_LEN_def PAYLOAD_LEN_def uint_nat)
  have nv: "nat (uint v) = unat v"
    by simp
  have len96: "length (UartTxBuffer s) = 96"
    using len by (simp add: UART_BUF_LEN_def PAYLOAD_LEN_def)
  have q1: "0 \<le> uint v"
    by simp
  have q2: "int (length (decimal (nat (uint v)))) + 1 \<le> int (96 - b)"
    using bd by (simp add: d_def ds_def)
  have q3: "b + nat (int (96 - b)) \<le> length (UartTxBuffer s)"
    using bd len by (simp add: UART_BUF_LEN_def PAYLOAD_LEN_def)
  obtain a1 where a1: "sc_itoa (uint v) (UartTxBuffer s) b (int (96 - b)) = Inr (a1, int d)"
      "length a1 = 96" "take b a1 = take b (UartTxBuffer s)" "take d (drop b a1) = ds"
    using sc_itoa_fits [OF q1 q2 q3] unfolding nv len96 d_def ds_def by blast
  have res: "append_diag s v sep =
          Inr (s\<lparr> UartTxBuffer := a1[b + d := sep],
                  UartTxBufferLength := UartTxBufferLength s + word_of_nat (d + 1) \<rparr>)"
    using a1 bd ml by (simp add: append_diag_def Let_def b_def [symmetric])
  have "take (Suc d) (drop b (a1[b + d := sep])) = ds @ [sep]"
  proof (rule take_Suc_drop_update)
    show "take d (drop b a1) = ds" by (rule a1(4))
    show "length ds = d" by (simp only: d_def)
    show "b + d < length a1" using a1(2) bd by simp
  qed
  then have "take (d + 1) (drop b (a1[b + d := sep])) = ds @ [sep]"
    by simp
  moreover have "take b (a1[b + d := sep]) = take b (UartTxBuffer s)"
    using a1 by simp
  moreover have "length (a1[b + d := sep]) = UART_BUF_LEN"
    using a1(2) by (simp add: UART_BUF_LEN_def PAYLOAD_LEN_def)
  ultimately show ?thesis
    unfolding ds_def [symmetric] d_def [symmetric] b_def [symmetric]
    using res by (intro exI [of _ "a1[b + d := sep]"]) simp
qed

lemma window_glue:
  assumes pre: "take (b + p) a' = take (b + p) a"
    and new: "take q (drop (b + p) a') = ys"
    and old: "take p (drop b a) = xs"
  shows "take (p + q) (drop b a') = xs @ ys" and "take b a' = take b a"
proof -
  have "take p (drop b a') = drop b (take (b + p) a')"
    by (simp add: drop_take)
  also have "\<dots> = take p (drop b a)"
    by (simp add: pre drop_take)
  finally have "take p (drop b a') = xs"
    using old by simp
  then show "take (p + q) (drop b a') = xs @ ys"
    using new by (simp add: take_add add.commute)
  have "take b a' = take b (take (b + p) a')"
    by simp
  also have "\<dots> = take b a"
    by (simp add: pre)
  finally show "take b a' = take b a" .
qed

lemma unat_add_small:
  fixes w :: u8
  shows "unat w + k < 256 \<Longrightarrow> unat (w + word_of_nat k) = unat w + k"
  by (simp add: unat_word_ariths unat_of_nat)

lemma append_frame_fits:
  assumes ut: "length (UartTxBuffer s) = UART_BUF_LEN"
    and rf: "RfRxBuffer s = (lenbyte # payload @ [rssi, crc]) @ rest"
    and rl: "RfRxBufferLength s = word_of_nat (length payload + 3)"
    and room: "unat (UartTxBufferLength s) + length (egress_text payload rssi crc)
                 \<le> UART_BUF_LEN"
    and cursor: "unat (UartTxBuffer_i s) < UART_BUF_LEN"
  shows "\<exists>a w u. append_frame s (length payload + 3) =
                    Inr (s\<lparr> UartTxBuffer := a, UartTxBufferLength := w, UCA0TXBUF := u \<rparr>) \<and>
                length a = UART_BUF_LEN \<and>
                take (unat (UartTxBufferLength s)) a =
                  take (unat (UartTxBufferLength s)) (UartTxBuffer s) \<and>
                take (length (egress_text payload rssi crc))
                  (drop (unat (UartTxBufferLength s)) a) = egress_text payload rssi crc \<and>
                unat w = unat (UartTxBufferLength s) + length (egress_text payload rssi crc)"
proof -
  define b where "b = unat (UartTxBufferLength s)"
  define p where "p = length payload"
  define d1 where "d1 = length (decimal (unat rssi))"
  define d2 where "d2 = length (decimal (unat crc))"
  define ut0 where "ut0 = UartTxBuffer s"
  define ut1 where "ut1 = take b ut0 @ payload @ drop (b + p) ut0"
  define w3 where "w3 = UartTxBufferLength s + (RfRxBufferLength s - 3)"
  define s3 where "s3 = s\<lparr> UartTxBuffer := ut1, UartTxBufferLength := w3 \<rparr>"
  have len0: "length ut0 = 96"
    using ut by (simp add: ut0_def UART_BUF_LEN_def PAYLOAD_LEN_def)
  have cap: "UART_BUF_LEN = 96"
    by (simp add: UART_BUF_LEN_def PAYLOAD_LEN_def)
  have tot: "b + p + d1 + 1 + d2 + 1 \<le> 96"
    using room by (simp add: egress_text_def b_def p_def d1_def d2_def cap)
  have rfn: "RfRxBuffer s ! (p + 1) = rssi" "RfRxBuffer s ! (p + 2) = crc"
    "p + 2 < length (RfRxBuffer s)" "take p (drop (Suc 0) (RfRxBuffer s)) = payload"
    by (simp_all add: rf p_def nth_append)
  have step1: "append_payload (RfRxBuffer s) ut0 b 0 (int p) = Inr ut1"
    using append_payload_eq [of 0 "int p" "RfRxBuffer s" b ut0] rfn tot len0
    by (simp add: ut1_def)
  have len1: "length ut1 = 96"
    using tot len0 by (simp add: ut1_def p_def)
  have w3: "unat w3 = b + p"
    using tot unat_add_small [of "UartTxBufferLength s" p]
    by (simp add: w3_def rl b_def p_def)
  have win1: "take b ut1 = take b ut0" "take p (drop b ut1) = payload"
    using tot len0 by (simp_all add: ut1_def p_def)
  have r3: "unat (UartTxBufferLength s3) + length (decimal (unat rssi)) + 1 \<le> UART_BUF_LEN"
    using tot by (simp add: s3_def w3 cap d1_def)
  have l3: "length (UartTxBuffer s3) = UART_BUF_LEN"
    by (simp add: s3_def len1 cap)
  obtain a4 where a4: "append_diag s3 rssi SP =
        Inr (s3\<lparr> UartTxBuffer := a4,
                  UartTxBufferLength := UartTxBufferLength s3 + word_of_nat (d1 + 1) \<rparr>)"
      "length a4 = UART_BUF_LEN" "take (b + p) a4 = take (b + p) ut1"
      "take (d1 + 1) (drop (b + p) a4) = decimal (unat rssi) @ [SP]"
    using append_diag_fits [OF l3 r3, of SP] unfolding d1_def [symmetric]
    by (auto simp: s3_def w3)
  define w4 where "w4 = w3 + word_of_nat (d1 + 1)"
  define s4 where "s4 = s3\<lparr> UartTxBuffer := a4, UartTxBufferLength := w4 \<rparr>"
  have w4: "unat w4 = b + p + d1 + 1"
    using tot unat_add_small [of w3 "d1 + 1"] by (simp add: w4_def w3)
  have r4: "unat (UartTxBufferLength s4) + length (decimal (unat crc)) + 1 \<le> UART_BUF_LEN"
    using tot by (simp add: s4_def w4 cap d2_def)
  have l4: "length (UartTxBuffer s4) = UART_BUF_LEN"
    by (simp add: s4_def a4(2))
  obtain a5 where a5: "append_diag s4 crc NL =
        Inr (s4\<lparr> UartTxBuffer := a5,
                  UartTxBufferLength := UartTxBufferLength s4 + word_of_nat (d2 + 1) \<rparr>)"
      "length a5 = UART_BUF_LEN" "take (b + p + d1 + 1) a5 = take (b + p + d1 + 1) a4"
      "take (d2 + 1) (drop (b + p + d1 + 1) a5) = decimal (unat crc) @ [NL]"
    using append_diag_fits [OF l4 r4, of NL] unfolding d2_def [symmetric]
    by (auto simp: s4_def w4)
  define w5 where "w5 = w4 + word_of_nat (d2 + 1)"
  have w5: "unat w5 = b + p + d1 + 1 + d2 + 1"
    using tot unat_add_small [of w4 "d2 + 1"] by (simp add: w5_def w4)
  have glue4: "take (p + (d1 + 1)) (drop b a4) = payload @ decimal (unat rssi) @ [SP]"
      "take b a4 = take b ut1"
    using window_glue [OF a4(3) a4(4) win1(2)] by simp_all
  have pre5: "take (b + (p + (d1 + 1))) a5 = take (b + (p + (d1 + 1))) a4"
    using a5(3) by (simp add: add.assoc)
  have new5: "take (d2 + 1) (drop (b + (p + (d1 + 1))) a5) = decimal (unat crc) @ [NL]"
    using a5(4) by (simp add: add.assoc)
  have glue5: "take (p + (d1 + 1) + (d2 + 1)) (drop b a5) = egress_text payload rssi crc"
      "take b a5 = take b a4"
    using window_glue [OF pre5 new5 glue4(1)] by (simp_all add: egress_text_def)
  have tl: "length (egress_text payload rssi crc) = p + (d1 + 1) + (d2 + 1)"
    by (simp add: egress_text_def p_def d1_def d2_def)
  have cur: "unat (UartTxBuffer_i s) < length a5"
    using cursor by (simp add: a5(2))
  have run: "append_frame s (length payload + 3) =
      Inr (s\<lparr> UartTxBuffer := a5, UartTxBufferLength := w5,
              UCA0TXBUF := UCA0TXBUF s @ [a5 ! unat (UartTxBuffer_i s)] \<rparr>)"
    using step1 a4(1) a5(1) rfn(1,2,3) cur
    unfolding s4_def s3_def w5_def w4_def w3_def b_def p_def ut0_def
    by (simp add: append_frame_def Let_def)
  show ?thesis
    unfolding b_def [symmetric] tl
    using run a5(2) glue5 glue4(2) win1(1) w5
    by (intro exI [of _ a5] exI [of _ w5]
        exI [of _ "UCA0TXBUF s @ [a5 ! unat (UartTxBuffer_i s)]"])
      (simp add: ut0_def add.assoc)
qed

lemma decode_ok:
  assumes ut: "length (UartTxBuffer s) = UART_BUF_LEN"
    and rb: "length (RfRxBuffer s) = PACKET_LEN"
    and frame: "fifo = lenbyte # payload @ [rssi, crc]"
    and plen: "2 \<le> length payload" "length payload \<le> PAYLOAD_LEN"
    and crc: "crc AND CRC_OK \<noteq> 0"
    and idle: "RxStatus AND CC430_STATE_MASK = CC430_STATE_IDLE"
    and room: "unat (UartTxBufferLength s) + length (egress_text payload rssi crc)
                 \<le> UART_BUF_LEN"
    and cursor: "unat (UartTxBuffer_i s) < UART_BUF_LEN"
  shows "\<exists>s'. handle_rf_rx_packet s RxStatus fifo = Inr s' \<and>
              length (UartTxBuffer s') = UART_BUF_LEN \<and>
              take (unat (UartTxBufferLength s)) (UartTxBuffer s') =
                take (unat (UartTxBufferLength s)) (UartTxBuffer s) \<and>
              appended s s' = egress_text payload rssi crc \<and>
              unat (UartTxBufferLength s') =
                unat (UartTxBufferLength s) + length (egress_text payload rssi crc) \<and>
              rf_error s' = rf_error s \<and> rf_receiving s' = 0 \<and>
              rf_transmitting s' = rf_transmitting s"
proof -
  define p where "p = length payload"
  define rest where "rest = drop (p + 3) (RfRxBuffer s)"
  define s2 where "s2 = s\<lparr> rf_receiving := 0, RfRxBufferLength := word_of_nat (p + 3),
                           RfRxBuffer := fifo @ rest \<rparr>"
  have p: "2 \<le> p" "p \<le> 32" "length fifo = p + 3"
    using plen by (simp_all add: p_def frame PAYLOAD_LEN_def)
  have n: "unat (word_of_nat (p + 3) :: u8) = p + 3"
    using p by (simp add: unat_word_ariths unat_of_nat)
  have rd: "ReadBurstReg fifo (RfRxBuffer s) (p + 3) = Inr (fifo @ rest)"
    using p rb by (simp add: ReadBurstReg_def rest_def PACKET_LEN_def PAYLOAD_LEN_def)
  have crcb: "(fifo @ rest) ! (p + 2) = crc" "p + 2 < length (fifo @ rest)"
    by (simp_all add: frame p_def nth_append)
  have fits: "\<not> UART_BUF_LEN < unat (UartTxBufferLength s) + p"
    using room by (simp add: egress_text_def p_def)
  have a1: "length (UartTxBuffer s2) = UART_BUF_LEN"
    using ut by (simp add: s2_def)
  have a2: "RfRxBuffer s2 = (lenbyte # payload @ [rssi, crc]) @ rest"
    by (simp add: s2_def frame)
  have a3: "RfRxBufferLength s2 = word_of_nat (length payload + 3)"
    by (simp add: s2_def p_def)
  have a4: "unat (UartTxBufferLength s2) + length (egress_text payload rssi crc)
              \<le> UART_BUF_LEN"
    using room by (simp add: s2_def)
  have a5: "unat (UartTxBuffer_i s2) < UART_BUF_LEN"
    using cursor by (simp add: s2_def)
  obtain a w u where fr: "append_frame s2 (p + 3) =
        Inr (s2\<lparr> UartTxBuffer := a, UartTxBufferLength := w, UCA0TXBUF := u \<rparr>)"
      "length a = UART_BUF_LEN"
      "take (unat (UartTxBufferLength s)) a =
         take (unat (UartTxBufferLength s)) (UartTxBuffer s)"
      "take (length (egress_text payload rssi crc)) (drop (unat (UartTxBufferLength s)) a) =
         egress_text payload rssi crc"
      "unat w = unat (UartTxBufferLength s) + length (egress_text payload rssi crc)"
    using append_frame_fits [OF a1 a2 a3 a4 a5] unfolding p_def [symmetric]
    by (auto simp: s2_def)
  have "handle_rf_rx_packet s RxStatus fifo =
          Inr (s2\<lparr> UartTxBuffer := a, UartTxBufferLength := w, UCA0TXBUF := u \<rparr>)"
    using idle crc p n rd crcb fits fr(1) unfolding s2_def
    by (simp add: handle_rf_rx_packet_def Let_def)
  then show ?thesis
    using fr(2-5) by (simp add: s2_def appended_def)
qed

lemma shift_rx_from_start:
  assumes "0 \<le> len" "nat bound + nat len \<le> length rx"
  shows "shift_rx rx 0 len bound =
           Inr (take (nat bound) (drop (nat len) rx) @ drop (nat bound) rx)"
proof (cases "0 \<le> bound")
  case True
  then show ?thesis
    using shift_rx_eq [of len 0 bound rx] assms by simp
next
  case False
  then show ?thesis
    by (subst shift_rx.simps) simp
qed

lemma send_next_msg_ok:
  assumes len: "msg_len s = Inr (int n)"
    and n: "0 < n" "n \<le> 34"
    and rx: "length (UartRxBuffer s) = UART_BUF_LEN"
    and tx: "length (RfTxBuffer s) = PACKET_LEN"
    and i: "unat (UartRxBuffer_i s) \<le> UART_BUF_LEN"
  shows "\<exists>s'. send_next_msg s = Inr (s', 0) \<and>
              rf_txfifo s' = rf_txfifo s @ [word_of_nat n # take n (UartRxBuffer s)] \<and>
              rf_transmitting s' = 1 \<and> rf_receiving s' = 0 \<and>
              length (UartRxBuffer s') = UART_BUF_LEN \<and>
              (if n = unat (UartRxBuffer_i s)
               then UartRxBuffer_i s' = 0 \<and> data_to_send s' = 0
               else UartRxBuffer_i s' = UartRxBuffer_i s - word_of_nat n \<and>
                    data_to_send s' = data_to_send s \<and>
                    take (unat (UartRxBuffer_i s) - n) (UartRxBuffer s') =
                      take (unat (UartRxBuffer_i s) - n) (drop n (UartRxBuffer s)))"
proof -
  define s1 where "s1 = (if uart_rx_timeout s = 1 then s\<lparr> uart_rx_timeout := 0 \<rparr> else s)"
  define rxb where "rxb = UartRxBuffer s"
  define i where "i = unat (UartRxBuffer_i s)"
  define txb where "txb = [word_of_nat n :: u8] @ take n rxb @ drop (Suc n) (RfTxBuffer s)"
  have sz: "length rxb = 96" "length (RfTxBuffer s) = 35" "i \<le> 96"
    using rx tx i by (simp_all add: rxb_def i_def UART_BUF_LEN_def PACKET_LEN_def PAYLOAD_LEN_def)
  have s1: "UartRxBuffer s1 = rxb" "RfTxBuffer s1 = RfTxBuffer s"
    "UartRxBuffer_i s1 = UartRxBuffer_i s" "rf_txfifo s1 = rf_txfifo s"
    "data_to_send s1 = data_to_send s"
    by (simp_all add: s1_def rxb_def)
  have cp: "copy_to_rf rxb ((RfTxBuffer s)[0 := word_of_nat n]) 0 (int n) = Inr txb"
    using copy_to_rf_eq [of 0 "int n" rxb "(RfTxBuffer s)[0 := word_of_nat n]"] n sz
    by (simp add: txb_def take_Suc_conv_app_nth)
  have ltx: "length txb = 35" "txb ! 0 = word_of_nat n" "take (Suc n) txb = word_of_nat n # take n rxb"
    using n sz by (simp_all add: txb_def)
  have un: "unat (word_of_nat n + 1 :: u8) = Suc n"
    using n by (simp add: unat_word_ariths unat_of_nat)
  define rxb' where "rxb' = take (i - n) (drop n rxb) @ drop (i - n) rxb"
  have nb: "nat (int i - int n) = i - n" "i - n + n \<le> 96"
    using n sz by auto
  have sh: "shift_rx rxb 0 (int n) (int i - int n) = Inr rxb'"
    using shift_rx_from_start [of "int n" "int i - int n" rxb] sz(1)
    by (simp add: rxb'_def nb)
  have lr: "length rxb' = 96" "take (i - n) rxb' = take (i - n) (drop n rxb)"
    using n sz by (simp_all add: rxb'_def)
  define s2 where "s2 = (if n = i
      then s1\<lparr> RfTxBuffer := txb, UartRxBuffer_i := 0, data_to_send := 0 \<rparr>
      else s1\<lparr> RfTxBuffer := txb, UartRxBuffer := rxb',
               UartRxBuffer_i := UartRxBuffer_i s - word_of_nat n \<rparr>)"
  have ui: "uint (UartRxBuffer_i s) = int i"
    by (simp only: i_def uint_nat)
  have cm: "consume_msg (s1\<lparr> RfTxBuffer := txb \<rparr>) (int n) = Inr s2"
    using sh by (simp add: consume_msg_def s1 s2_def ui)
  define s3 where "s3 = (if rf_receiving s2 \<noteq> 0 then (RfReceiveOff s2)\<lparr> rf_receiving := 0 \<rparr>
                         else s2)\<lparr> rf_transmitting := 1 \<rparr>"
  have s2tx: "RfTxBuffer s2 = txb" "rf_txfifo s2 = rf_txfifo s"
    by (simp_all add: s2_def s1)
  have s3tx: "RfTxBuffer s3 = txb" "rf_txfifo s3 = rf_txfifo s" "rf_receiving s3 = 0"
    by (simp_all add: s3_def s2_def s1 RfReceiveOff_def)
  have st: "start_transmit s2 =
          Inr (s3\<lparr> rfifg9_enabled := True,
                  rf_txfifo := rf_txfifo s @ [word_of_nat n # take n rxb] \<rparr>)"
    using ltx un s2tx n
    by (simp add: start_transmit_def Let_def s3_def RfTransmit_def RfReceiveOff_def)
  have "send_next_msg s =
          Inr (s3\<lparr> rfifg9_enabled := True,
                  rf_txfifo := rf_txfifo s @ [word_of_nat n # take n rxb] \<rparr>, 0)"
    using len n sz cp cm st
    by (simp add: send_next_msg_def Let_def s1_def [symmetric] s1)
  moreover have "length (UartRxBuffer s3) = UART_BUF_LEN"
    using lr sz by (simp add: s3_def s2_def s1 RfReceiveOff_def UART_BUF_LEN_def PAYLOAD_LEN_def)
  moreover have "n = i \<Longrightarrow> UartRxBuffer_i s3 = 0 \<and> data_to_send s3 = 0"
    by (simp add: s3_def s2_def s1 RfReceiveOff_def)
  moreover have "n \<noteq> i \<Longrightarrow> UartRxBuffer_i s3 = UartRxBuffer_i s - word_of_nat n \<and>
      data_to_send s3 = data_to_send s \<and> take (i - n) (UartRxBuffer s3) = take (i - n) (drop n rxb)"
    using lr by (simp add: s3_def s2_def s1 RfReceiveOff_def)
  ultimately show ?thesis
    unfolding i_def [symmetric] rxb_def [symmetric]
    using s3tx by (intro exI [of _ "s3\<lparr> rfifg9_enabled := True,
                  rf_txfifo := rf_txfifo s @ [word_of_nat n # take n rxb] \<rparr>"])
      (simp add: s3_def)
qed

lemma find_newline_hit:
  "x \<le> p \<Longrightarrow> p < n \<Longrightarrow> p < length buf \<Longrightarrow> buf ! p = NL \<Longrightarrow>
   (\<And>q. x \<le> q \<Longrightarrow> q < p \<Longrightarrow> buf ! q \<noteq> NL) \<Longrightarrow>
   find_newline buf x n = Inr (int p + 1)"
proof (induction buf x n rule: find_newline.induct)
  case (1 buf x n)
  show ?case
  proof (cases "x = p")
    case True
    then show ?thesis
      using "1.prems" by (subst find_newline.simps) simp
  next
    case False
    then have lt: "x < p" "x < n" "x < length buf" "buf ! x \<noteq> NL"
      using "1.prems" by auto
    have "find_newline buf x n = find_newline buf (x + 1) n"
      using lt by (subst find_newline.simps) simp
    also have "\<dots> = Inr (int p + 1)"
    proof (rule "1.IH")
      show "x < n" by (rule lt)
      show "load buf x = Inr (buf ! x)" using lt by simp
      show "buf ! x \<noteq> NL" by (rule lt)
      show "x + 1 \<le> p" using lt by simp
      show "p < n" "p < length buf" "buf ! p = NL" using "1.prems" by auto
      show "\<And>q. x + 1 \<le> q \<Longrightarrow> q < p \<Longrightarrow> buf ! q \<noteq> NL"
        using "1.prems"(5) by simp
    qed
    finally show ?thesis .
  qed
qed

lemma sint_small:
  fixes w :: u8
  assumes "unat w \<le> 96"
  shows "sint w = int (unat w)"
proof -
  have "int (unat w) \<le> 96"
    using assms by linarith
  then have small: "uint w \<le> 96"
    by simp
  have "sint w = signed_take_bit 7 (uint w)"
    by (simp add: sint_uint)
  also have "\<dots> = uint w"
  proof (rule signed_take_bit_int_eq_self)
    show "- (2 ^ 7) \<le> uint w"
      by (rule order_trans [of _ 0]) simp_all
    show "uint w < 2 ^ 7"
      using small by simp
  qed
  finally show ?thesis
    by simp
qed

text \<open>The trailer of a frame has at most 8 bytes.\<close>

lemma decimal_digit: "n < 10 \<Longrightarrow> length (decimal n) = 1"
  by (subst decimal.simps) simp

lemma decimal_two_digits: "n < 100 \<Longrightarrow> length (decimal n) \<le> 2"
  by (subst decimal.simps) (simp add: decimal_digit)

lemma decimal_three_digits: "n < 1000 \<Longrightarrow> length (decimal n) \<le> 3"
proof (cases "n < 10")
  case True
  then show ?thesis by (simp add: decimal_digit)
next
  case False
  assume "n < 1000"
  then have "n div 10 < 100"
    by simp
  then have "length (decimal (n div 10)) \<le> 2"
    by (rule decimal_two_digits)
  then show ?thesis
    using False by (subst decimal.simps) simp
qed

lemma egress_text_length: "length (egress_text payload rssi crc) \<le> length payload + 8"
proof -
  have "unat rssi < 1000" "unat crc < 1000"
    using unsigned_less [of rssi, where 'a = nat] unsigned_less [of crc, where 'a = nat]
    by simp_all
  then have "length (decimal (unat rssi)) \<le> 3" "length (decimal (unat crc)) \<le> 3"
    by (simp_all add: decimal_three_digits)
  then show ?thesis
    by (simp add: egress_text_def)
qed

subsection \<open>The radio flags\<close>

lemma and_then_eq_Inr: "and_then m f = Inr y \<longleftrightarrow> (\<exists>x. m = Inr x \<and> f x = Inr y)"
  by (cases m) simp_all

lemma handle_uart_rx_byte_radio:
  "handle_uart_rx_byte s b = Inr (s', r) \<Longrightarrow>
   rf_transmitting s' = rf_transmitting s \<and> rf_receiving s' = rf_receiving s"
  by (auto simp: handle_uart_rx_byte_def timer_clear_def timer_set_def store_def Let_def
      split: if_splits)

lemma USCI_A0_ISR_radio:
  "USCI_A0_ISR s iv b = Inr (s', w) \<Longrightarrow>
   rf_transmitting s' = rf_transmitting s \<and> rf_receiving s' = rf_receiving s"
  by (auto simp: USCI_A0_ISR_def and_then_eq_Inr Let_def load_def
      dest: handle_uart_rx_byte_radio split: if_splits)

lemma append_diag_radio:
  "append_diag s v sep = Inr s' \<Longrightarrow>
   rf_transmitting s' = rf_transmitting s \<and> rf_receiving s' = rf_receiving s"
  by (auto simp: append_diag_def and_then_eq_Inr Let_def split: if_splits prod.splits)

lemma append_frame_radio:
  assumes "append_frame s n = Inr s'"
  shows "rf_transmitting s' = rf_transmitting s \<and> rf_receiving s' = rf_receiving s"
proof -
  obtain ut rssi s4 lqi s5 c where
    d1: "append_diag (s\<lparr> UartTxBuffer := ut,
                         UartTxBufferLength :=
                           UartTxBufferLength s + (RfRxBufferLength s - 3) \<rparr>) rssi SP = Inr s4"
    and d2: "append_diag s4 lqi NL = Inr s5"
    and s': "s' = s5\<lparr> UCA0TXBUF := UCA0TXBUF s5 @ [c] \<rparr>"
    using assms by (auto simp: append_frame_def and_then_eq_Inr Let_def)
  show ?thesis
    using append_diag_radio [OF d1] append_diag_radio [OF d2] by (simp add: s')
qed

lemma handle_rf_rx_packet_radio:
  assumes h: "handle_rf_rx_packet s st fifo = Inr s'"
  shows "rf_transmitting s' = rf_transmitting s \<and> rf_receiving s' = 0"
proof (cases "st AND CC430_STATE_MASK \<noteq> CC430_STATE_IDLE")
  case True
  then show ?thesis
    using h by (auto simp: handle_rf_rx_packet_def Let_def rx_error_def failed_to_receive_def)
next
  case idle: False
  define n where "n = unat (word_of_nat (length fifo) :: u8)"
  show ?thesis
  proof (cases "n < 5")
    case True
    then show ?thesis
      using h idle
      by (auto simp: handle_rf_rx_packet_def Let_def rx_error_def failed_to_receive_def n_def)
  next
    case False
    define s1 where "s1 = s\<lparr> rf_receiving := 0, RfRxBufferLength := word_of_nat (length fifo) \<rparr>"
    obtain rf crc where rf: "ReadBurstReg fifo (RfRxBuffer s) n = Inr rf"
      and tail: "(if crc AND CRC_OK = 0 then Inr (rx_error (s1\<lparr> RfRxBuffer := rf \<rparr>))
                  else if unat (UartTxBufferLength s) + (n - 3) > UART_BUF_LEN
                  then Inr (failed_to_receive (s1\<lparr> RfRxBuffer := rf \<rparr>))
                  else append_frame (s1\<lparr> RfRxBuffer := rf \<rparr>) n) = Inr s'"
      using h idle False
      by (simp add: handle_rf_rx_packet_def Let_def n_def [symmetric] and_then_eq_Inr s1_def
          cong: if_cong) blast
    show ?thesis
    proof (cases "crc AND CRC_OK = 0")
      case True
      then show ?thesis
        using tail by (auto simp: rx_error_def failed_to_receive_def s1_def)
    next
      case ok: False
      show ?thesis
      proof (cases "unat (UartTxBufferLength s) + (n - 3) > UART_BUF_LEN")
        case True
        then show ?thesis
          using tail ok by (auto simp: failed_to_receive_def s1_def)
      next
        case False
        then have "append_frame (s1\<lparr> RfRxBuffer := rf \<rparr>) n = Inr s'"
          using tail ok by simp
        then show ?thesis
          using append_frame_radio [of "s1\<lparr> RfRxBuffer := rf \<rparr>" n s'] by (simp add: s1_def)
      qed
    qed
  qed
qed

lemma CC1101_ISR_radio:
  "CC1101_ISR s iv st fifo = Inr (s', w) \<Longrightarrow> half_duplex s \<Longrightarrow> half_duplex s'"
  by (auto simp: CC1101_ISR_def and_then_eq_Inr half_duplex_def Let_def
      dest!: handle_rf_rx_packet_radio split: if_splits)

lemma TIMER1_A0_ISR_radio:
  "TIMER1_A0_ISR s = (s', w) \<Longrightarrow>
   rf_transmitting s' = rf_transmitting s \<and> rf_receiving s' = rf_receiving s"
  by (auto simp: TIMER1_A0_ISR_def timer_clear_def Let_def split: if_splits)

lemma main_listen_radio: "half_duplex s \<Longrightarrow> half_duplex (main_listen s)"
  by (simp add: main_listen_def half_duplex_def RfReceiveOn_def RfReceiveOff_def Let_def)

lemma consume_msg_radio:
  "consume_msg s len = Inr s' \<Longrightarrow>
   rf_transmitting s' = rf_transmitting s \<and> rf_receiving s' = rf_receiving s"
  by (auto simp: consume_msg_def and_then_eq_Inr split: if_splits)

lemma start_transmit_radio:
  "start_transmit s = Inr s' \<Longrightarrow> rf_transmitting s' = 1 \<and> rf_receiving s' = 0"
  by (auto simp: start_transmit_def and_then_eq_Inr Let_def RfTransmit_def RfReceiveOff_def
      split: if_splits)

lemma send_next_msg_radio:
  assumes "send_next_msg s = Inr (s', r)"
  shows "(r = 1 \<and> rf_transmitting s' = rf_transmitting s \<and> rf_receiving s' = rf_receiving s) \<or>
         (r = 0 \<and> rf_transmitting s' = 1 \<and> rf_receiving s' = 0)"
  using assms
  by (auto simp: send_next_msg_def and_then_eq_Inr Let_def
      dest!: start_transmit_radio split: if_splits)

lemma main_dispatch_radio:
  "main_dispatch s = Inr s' \<Longrightarrow> half_duplex s \<Longrightarrow> half_duplex s'"
  by (auto simp: main_dispatch_def and_then_eq_Inr half_duplex_def
      dest!: send_next_msg_radio split: if_splits)

lemma step_half_duplex:
  assumes "step (p, s) e = Inr (p', s')" "half_duplex s"
  shows "half_duplex s'"
proof (cases e)
  case (UartRx b)
  then show ?thesis
    using assms by (auto simp: and_then_eq_Inr half_duplex_def dest!: USCI_A0_ISR_radio)
next
  case UartTxReady
  then show ?thesis
    using assms by (auto simp: and_then_eq_Inr half_duplex_def dest!: USCI_A0_ISR_radio)
next
  case (RadioIrq st fifo)
  then show ?thesis
    using assms by (auto simp: and_then_eq_Inr dest: CC1101_ISR_radio split: if_splits)
next
  case TimerIrq
  then show ?thesis
    using assms
    by (auto simp: half_duplex_def dest!: TIMER1_A0_ISR_radio split: if_splits prod.splits)
next
  case MainStep
  then show ?thesis
    using assms
    by (auto simp: and_then_eq_Inr dest: main_dispatch_radio main_listen_radio split: pc.splits)
qed

lemma run_half_duplex:
  "run c es = Inr c' \<Longrightarrow> half_duplex (snd c) \<Longrightarrow> half_duplex (snd c')"
proof (induction es arbitrary: c)
  case Nil
  then show ?case by simp
next
  case (Cons e es)
  then obtain c1 where c1: "step c e = Inr c1" "run c1 es = Inr c'"
    by (auto split: sum.splits)
  have "half_duplex (snd c1)"
    using step_half_duplex [of "fst c" "snd c" e "fst c1" "snd c1"] c1 Cons.prems by simp
  then show ?case
    using Cons.IH [OF c1(2)] by simp
qed

lemma unat_length_small: "n < 256 \<Longrightarrow> unat (word_of_nat n :: u8) = n"
  by (simp add: unat_of_nat)

subsection \<open>Serial delivery\<close>

lemma accept_byte:
  assumes "length (UartRxBuffer s) = UART_BUF_LEN" "unat (UartRxBuffer_i s) < UART_BUF_LEN"
    "b \<noteq> NL"
  shows "handle_uart_rx_byte s b =
           Inr (s\<lparr> UartRxBuffer := (UartRxBuffer s)[unat (UartRxBuffer_i s) := b],
                   UartRxBuffer_i := UartRxBuffer_i s + 1, uart_rx_timeout := 0,
                   timer_running := True, TA1CCR0 := 512 \<rparr>, 0)"
  using assms
  by (simp add: handle_uart_rx_byte_def timer_clear_def timer_set_def Let_def
      UART_RX_NEWDATA_TIMEOUT_MS_def)

lemma accept_newline:
  assumes "length (UartRxBuffer s) = UART_BUF_LEN" "unat (UartRxBuffer_i s) < UART_BUF_LEN"
  shows "handle_uart_rx_byte s NL =
           Inr (s\<lparr> UartRxBuffer := (UartRxBuffer s)[unat (UartRxBuffer_i s) := NL],
                   UartRxBuffer_i := UartRxBuffer_i s + 1, uart_rx_timeout := 0,
                   timer_running := False, data_to_send := UartRxBuffer_i s + 1 \<rparr>, 1)"
  using assms
  by (simp add: handle_uart_rx_byte_def timer_clear_def Let_def)

lemma deliver_bytes:
  assumes "length (UartRxBuffer s) = UART_BUF_LEN"
    and "unat (UartRxBuffer_i s) + length body \<le> UART_BUF_LEN"
    and "NL \<notin> set body"
  shows "\<exists>s'. run (p, s) (map UartRx body) = Inr (p, s') \<and>
              UartRxBuffer s' =
                take (unat (UartRxBuffer_i s)) (UartRxBuffer s) @ body @
                drop (unat (UartRxBuffer_i s) + length body) (UartRxBuffer s) \<and>
              unat (UartRxBuffer_i s') = unat (UartRxBuffer_i s) + length body \<and>
              data_to_send s' = data_to_send s \<and>
              rf_transmitting s' = rf_transmitting s \<and> rf_receiving s' = rf_receiving s \<and>
              rf_txfifo s' = rf_txfifo s \<and> RfTxBuffer s' = RfTxBuffer s \<and>
              UartTxBuffer s' = UartTxBuffer s \<and> RfRxBuffer s' = RfRxBuffer s \<and>
              (body \<noteq> [] \<longrightarrow> uart_rx_timeout s' = 0) \<and>
              (body = [] \<longrightarrow> s' = s)"
  using assms
proof (induction body arbitrary: s)
  case Nil
  then show ?case by simp
next
  case (Cons b body)
  define k where "k = unat (UartRxBuffer_i s)"
  define s1 where "s1 = s\<lparr> UartRxBuffer := (UartRxBuffer s)[k := b],
                   UartRxBuffer_i := UartRxBuffer_i s + 1, uart_rx_timeout := 0,
                   timer_running := True, TA1CCR0 := 512 \<rparr>"
  have cap: "UART_BUF_LEN = 96"
    by (simp add: UART_BUF_LEN_def PAYLOAD_LEN_def)
  have k: "k < UART_BUF_LEN" "k + 1 + length body \<le> UART_BUF_LEN" "b \<noteq> NL"
    "k < length (UartRxBuffer s)"
    using Cons.prems by (auto simp: k_def)
  have st: "step (p, s) (UartRx b) = Inr (p, s1)"
    using accept_byte [OF Cons.prems(1), of b] k
    by (simp add: USCI_A0_ISR_def wake_def s1_def k_def)
  have i1: "unat (UartRxBuffer_i s1) = k + 1"
    using k unat_add_small [of "UartRxBuffer_i s" 1] by (simp add: s1_def k_def cap)
  have p1: "length (UartRxBuffer s1) = UART_BUF_LEN"
    using Cons.prems(1) by (simp add: s1_def)
  have p2: "unat (UartRxBuffer_i s1) + length body \<le> UART_BUF_LEN"
    using k by (simp add: i1)
  have p3: "NL \<notin> set body"
    using Cons.prems(3) by simp
  obtain s' where s': "run (p, s1) (map UartRx body) = Inr (p, s')"
      "UartRxBuffer s' = take (k + 1) (UartRxBuffer s1) @ body @
                drop (k + 1 + length body) (UartRxBuffer s1)"
      "unat (UartRxBuffer_i s') = k + 1 + length body"
      "data_to_send s' = data_to_send s1"
      "rf_transmitting s' = rf_transmitting s1" "rf_receiving s' = rf_receiving s1"
      "rf_txfifo s' = rf_txfifo s1" "RfTxBuffer s' = RfTxBuffer s1"
      "UartTxBuffer s' = UartTxBuffer s1" "RfRxBuffer s' = RfRxBuffer s1"
      "body \<noteq> [] \<longrightarrow> uart_rx_timeout s' = 0" "body = [] \<longrightarrow> s' = s1"
    using Cons.IH [OF p1 p2 p3] unfolding i1 by blast
  have buf: "take (k + 1) (UartRxBuffer s1) @ body @ drop (k + 1 + length body) (UartRxBuffer s1)
               = take k (UartRxBuffer s) @ (b # body) @
                 drop (k + length (b # body)) (UartRxBuffer s)"
    using k by (simp add: s1_def take_Suc_conv_app_nth)
  have t0: "uart_rx_timeout s' = 0"
    using s'(11,12) by (cases "body = []") (simp_all add: s1_def)
  show ?case
    unfolding k_def [symmetric]
    using st s' buf t0 by (intro exI [of _ s']) (simp add: s1_def)
qed

lemma run_append:
  "run c (xs @ ys) = (case run c xs of Inl e \<Rightarrow> Inl e | Inr c' \<Rightarrow> run c' ys)"
  by (induction xs arbitrary: c) (auto split: sum.splits)

lemma serial_message_is_sent:
  assumes body: "NL \<notin> set body" "length body + 1 \<le> PAYLOAD_LEN"
  shows "\<exists>s s'. run init_system (MainStep # map UartRx (body @ [NL])) = Inr (AtDispatch, s) \<and>
               sized s \<and> unat (UartRxBuffer_i s) \<le> UART_BUF_LEN \<and>
               msg_len s = Inr (int (length body + 1)) \<and>
               take (length body + 1) (UartRxBuffer s) = body @ [NL] \<and>
               step (AtDispatch, s) MainStep = Inr (AtListen, s') \<and>
               rf_txfifo s' = [word_of_nat (length body + 1) # body @ [NL]]"
proof -
  define m where "m = length body"
  define s0 where "s0 = main_listen init_modem"
  have cap: "UART_BUF_LEN = 96" "PACKET_LEN = 35" "PAYLOAD_LEN = 32"
    by (simp_all add: UART_BUF_LEN_def PACKET_LEN_def PAYLOAD_LEN_def)
  have m: "m < 32"
    using body(2) by (simp add: m_def cap)
  have s0: "UartRxBuffer s0 = replicate 96 0" "UartRxBuffer_i s0 = 0" "data_to_send s0 = 0"
    "rf_transmitting s0 = 0" "rf_txfifo s0 = []" "RfTxBuffer s0 = replicate 35 0"
    "uart_rx_timeout s0 = 0" "UartTxBuffer s0 = replicate 96 0" "RfRxBuffer s0 = replicate 35 0"
    by (simp_all add: s0_def main_listen_def init_modem_def RfReceiveOn_def RfReceiveOff_def
        cap Let_def)
  have st0: "step init_system MainStep = Inr (Asleep, s0)"
    by (simp add: init_system_def s0_def)
  have q1: "length (UartRxBuffer s0) = UART_BUF_LEN"
    by (simp add: s0 cap)
  have q2: "unat (UartRxBuffer_i s0) + length body \<le> UART_BUF_LEN"
    using m by (simp add: s0 cap m_def)
  obtain s1 where s1: "run (Asleep, s0) (map UartRx body) = Inr (Asleep, s1)"
      "UartRxBuffer s1 = body @ replicate (96 - m) 0"
      "unat (UartRxBuffer_i s1) = m"
      "data_to_send s1 = 0" "rf_transmitting s1 = 0" "rf_txfifo s1 = []"
      "RfTxBuffer s1 = replicate 35 0" "UartTxBuffer s1 = replicate 96 0"
      "RfRxBuffer s1 = replicate 35 0"
    using deliver_bytes [OF q1 q2 body(1), of Asleep] by (auto simp: s0 m_def)
  define s2 where "s2 = s1\<lparr> UartRxBuffer := (UartRxBuffer s1)[m := NL],
                   UartRxBuffer_i := UartRxBuffer_i s1 + 1, uart_rx_timeout := 0,
                   timer_running := False, data_to_send := UartRxBuffer_i s1 + 1 \<rparr>"
  have l1: "length (UartRxBuffer s1) = UART_BUF_LEN"
    using m by (simp add: s1(2) cap m_def)
  have i1: "unat (UartRxBuffer_i s1) < UART_BUF_LEN"
    using m by (simp add: s1(3) cap)
  have st2: "step (Asleep, s1) (UartRx NL) = Inr (AtDispatch, s2)"
    using accept_newline [OF l1 i1]
    by (simp add: USCI_A0_ISR_def wake_def s2_def s1(3))
  have w: "unat (UartRxBuffer_i s1 + 1) = Suc m"
    using m unat_add_small [of "UartRxBuffer_i s1" 1] by (simp add: s1(3))
  have i2: "unat (UartRxBuffer_i s2) = Suc m" "unat (data_to_send s2) = Suc m"
    by (simp_all add: s2_def w)
  have r96: "replicate (96 - m) (0 :: u8) = 0 # replicate (95 - m) 0"
    using m by (simp add: Suc_diff_le flip: replicate_Suc)
  have buf2: "UartRxBuffer s2 = body @ NL # replicate (95 - m) 0"
    by (simp add: s2_def s1(2) r96 list_update_append m_def [symmetric])
  have run2: "run init_system (MainStep # map UartRx (body @ [NL])) = Inr (AtDispatch, s2)"
    using st0 s1(1) st2 by (simp add: run_append)
  have sz: "sized s2"
    using m by (simp add: sized_def buf2 s2_def s1 cap m_def [symmetric])
  have tk: "take (Suc m) (UartRxBuffer s2) = body @ [NL]"
    by (simp add: buf2 m_def)
  have ml: "msg_len s2 = Inr (int (Suc m))"
  proof -
    have "find_newline (UartRxBuffer s2) 0 (Suc m) = Inr (int m + 1)"
    proof (rule find_newline_hit)
      show "0 \<le> m" by simp
      show "m < Suc m" by simp
      show "m < length (UartRxBuffer s2)" by (simp add: buf2 m_def)
      show "UartRxBuffer s2 ! m = NL"
        by (simp add: buf2 nth_append m_def)
      show "\<And>q. 0 \<le> q \<Longrightarrow> q < m \<Longrightarrow> UartRxBuffer s2 ! q \<noteq> NL"
        using body(1) by (auto simp: buf2 nth_append m_def dest: nth_mem)
    qed
    moreover have "uart_rx_timeout s2 = 0"
      by (simp add: s2_def)
    ultimately show ?thesis
      by (simp add: msg_len_def i2)
  qed
  have i96: "unat (UartRxBuffer_i s2) \<le> UART_BUF_LEN"
    using m by (simp add: i2 cap)
  have rx: "length (UartRxBuffer s2) = UART_BUF_LEN" and tx: "length (RfTxBuffer s2) = PACKET_LEN"
    using sz by (simp_all add: sized_def)
  have n0: "0 < Suc m" and n34: "Suc m \<le> 34"
    using m by simp_all
  obtain s' where s': "send_next_msg s2 = Inr (s', 0)"
      "rf_txfifo s' = rf_txfifo s2 @ [word_of_nat (Suc m) # take (Suc m) (UartRxBuffer s2)]"
    using send_next_msg_ok [OF ml n0 n34 rx tx i96] by blast
  have d0: "data_to_send s2 \<noteq> 0"
    using i2(2) by auto
  have t0: "rf_transmitting s2 = 0" "rf_txfifo s2 = []"
    by (simp_all add: s2_def s1)
  have "step (AtDispatch, s2) MainStep = Inr (AtListen, s')"
    using s'(1) d0 t0 by (simp add: main_dispatch_def)
  moreover have "rf_txfifo s' = [word_of_nat (Suc m) # body @ [NL]]"
    by (simp only: s'(2) tk t0 append_Nil)
  ultimately show ?thesis
    unfolding m_def [symmetric] Suc_eq_plus1 [symmetric]
    using run2 sz i96 ml tk by blast
qed

text \<open>
  A message of 2 to 32 bytes that ends with its only newline, delivered byte by byte to
  the modem after start-up, is sent as one frame by the next dispatch, and a receiver with
  room in its Egress Buffer that gets this frame with a CRC-valid status byte relays the
  bytes of the message.
\<close>

lemma serial_round_trip:
  assumes body: "NL \<notin> set body" "1 \<le> length body" "length body + 1 \<le> PAYLOAD_LEN"
    and receiver: "sized r" "unat (UartTxBuffer_i r) < UART_BUF_LEN"
      "RxStatus AND CC430_STATE_MASK = CC430_STATE_IDLE" "crc AND CRC_OK \<noteq> 0"
      "unat (UartTxBufferLength r) + length (egress_text (body @ [NL]) rssi crc)
         \<le> UART_BUF_LEN"
  shows "\<exists>s s' r'. run init_system (MainStep # map UartRx (body @ [NL])) = Inr (AtDispatch, s) \<and>
                  step (AtDispatch, s) MainStep = Inr (AtListen, s') \<and>
                  rf_txfifo s' = [word_of_nat (length body + 1) # body @ [NL]] \<and>
                  handle_rf_rx_packet r RxStatus
                    ((word_of_nat (length body + 1) # body @ [NL]) @ [rssi, crc]) = Inr r' \<and>
                  take (length body + 1) (appended r r') = body @ [NL]"
proof -
  define msg where "msg = body @ [NL]"
  have ut: "length (UartTxBuffer r) = UART_BUF_LEN" and rb: "length (RfRxBuffer r) = PACKET_LEN"
    using receiver(1) by (simp_all add: sized_def)
  have ml: "length msg = length body + 1" "2 \<le> length msg" "length msg \<le> PAYLOAD_LEN"
    using body(2,3) by (simp_all add: msg_def)
  obtain s s' where s: "run init_system (MainStep # map UartRx (body @ [NL])) = Inr (AtDispatch, s)"
      "step (AtDispatch, s) MainStep = Inr (AtListen, s')"
      "rf_txfifo s' = [word_of_nat (length body + 1) # body @ [NL]]"
    using serial_message_is_sent [OF body(1,3)] by blast
  have fr: "(word_of_nat (length body + 1) # msg) @ [rssi, crc] =
              word_of_nat (length body + 1) # msg @ [rssi, crc]"
    by simp
  have room: "unat (UartTxBufferLength r) + length (egress_text msg rssi crc) \<le> UART_BUF_LEN"
    using receiver(5) by (simp add: msg_def)
  obtain r' where r': "handle_rf_rx_packet r RxStatus
                         ((word_of_nat (length body + 1) # msg) @ [rssi, crc]) = Inr r'"
      "appended r r' = egress_text msg rssi crc"
    using decode_ok [OF ut rb fr ml(2,3) receiver(4) receiver(3) room receiver(2)] by blast
  have "take (length body + 1) (appended r r') = msg"
    using ml(1) by (simp add: r'(2) egress_text_def)
  then show ?thesis
    using s r'(1) unfolding msg_def by blast
qed

section \<open>The claims\<close>

text \<open>
  Claim C1, as stated: for every payload of length 1 to 32, encoding it as a radio frame
  and decoding that frame with a CRC-valid status byte appended returns the payload.
  A payload of one byte fails: the serial input of a lone newline is sent as the frame
  [1, newline]; with the two status bytes it has 4 bytes, and the receiver rejects every
  frame shorter than 5 bytes as a link fault and relays nothing.
\<close>

theorem one_byte_payload_rejected:
  "(case run init_system [MainStep, UartRx 10, MainStep] of
      Inl e \<Rightarrow> False
    | Inr (p, s) \<Rightarrow> rf_txfifo s = [[1, 10]]) \<and>
   (case handle_rf_rx_packet init_modem 0 ([1, 10] @ [50, 133]) of
      Inl e \<Rightarrow> False
    | Inr r' \<Rightarrow> appended init_modem r' = [] \<and> rf_error r' = 1 \<and> UCA0TXBUF r' = [])"
  by code_simp

text \<open>
  Claim C1, amended: for every payload of length 2 to 32, encoding it as a radio frame
  (one length byte followed by the payload bytes) and decoding that frame with a
  CRC-valid status byte appended, at a receiver whose Egress Buffer has room for the
  frame and its trailer, returns the payload unchanged: the first bytes appended to the
  Egress Buffer are the payload. The sender is any state in which the dispatch finds a
  message of that length, by the terminator or by the flush timer; \<open>serial_round_trip\<close>
  above reaches such a state by delivering a newline-terminated message byte by byte.
\<close>

theorem codec_round_trip:
  assumes sender: "sized s" "unat (UartRxBuffer_i s) \<le> UART_BUF_LEN"
      "msg_len s = Inr (int n)" "2 \<le> n" "n \<le> PAYLOAD_LEN"
    and receiver: "sized r" "unat (UartTxBuffer_i r) < UART_BUF_LEN"
      "RxStatus AND CC430_STATE_MASK = CC430_STATE_IDLE" "crc AND CRC_OK \<noteq> 0"
      "unat (UartTxBufferLength r) + length (egress_text (take n (UartRxBuffer s)) rssi crc)
         \<le> UART_BUF_LEN"
  shows "\<exists>s' r'. send_next_msg s = Inr (s', 0) \<and>
                 rf_txfifo s' = rf_txfifo s @ [word_of_nat n # take n (UartRxBuffer s)] \<and>
                 handle_rf_rx_packet r RxStatus
                   ((word_of_nat n # take n (UartRxBuffer s)) @ [rssi, crc]) = Inr r' \<and>
                 take n (appended r r') = take n (UartRxBuffer s) \<and>
                 rf_error r' = rf_error r"
proof -
  define payload where "payload = take n (UartRxBuffer s)"
  have rx: "length (UartRxBuffer s) = UART_BUF_LEN" and tx: "length (RfTxBuffer s) = PACKET_LEN"
    using sender(1) by (simp_all add: sized_def)
  have ut: "length (UartTxBuffer r) = UART_BUF_LEN" and rb: "length (RfRxBuffer r) = PACKET_LEN"
    using receiver(1) by (simp_all add: sized_def)
  have n: "0 < n" "n \<le> 34" "n \<le> 32"
    using sender(4,5) by (simp_all add: PAYLOAD_LEN_def)
  have pl: "length payload = n"
    using n rx by (simp add: payload_def UART_BUF_LEN_def PAYLOAD_LEN_def)
  obtain s' where s': "send_next_msg s = Inr (s', 0)"
      "rf_txfifo s' = rf_txfifo s @ [word_of_nat n # payload]"
    using send_next_msg_ok [OF sender(3) n(1,2) rx tx sender(2)]
    unfolding payload_def by blast
  have fr: "(word_of_nat n # payload) @ [rssi, crc] = word_of_nat n # payload @ [rssi, crc]"
    by simp
  have p2: "2 \<le> length payload" "length payload \<le> PAYLOAD_LEN"
    using sender(4,5) by (simp_all add: pl)
  have room: "unat (UartTxBufferLength r) + length (egress_text payload rssi crc)
                \<le> UART_BUF_LEN"
    using receiver(5) by (simp add: payload_def)
  obtain r' where r': "handle_rf_rx_packet r RxStatus ((word_of_nat n # payload) @ [rssi, crc])
                         = Inr r'"
      "appended r r' = egress_text payload rssi crc" "rf_error r' = rf_error r"
    using decode_ok [OF ut rb fr p2 receiver(4) receiver(3) room receiver(2)] by blast
  have "take n (appended r r') = payload"
    using pl by (simp add: r'(2) egress_text_def)
  then show ?thesis
    using s' r' unfolding payload_def by blast
qed

theorem codec_round_trip_witness:
  "sized two_messages \<and> unat (UartRxBuffer_i two_messages) \<le> UART_BUF_LEN \<and>
   msg_len two_messages = Inr (int 2) \<and> (2 :: nat) \<le> 2 \<and> 2 \<le> PAYLOAD_LEN \<and>
   sized init_modem \<and> unat (UartTxBuffer_i init_modem) < UART_BUF_LEN \<and>
   (0 :: u8) AND CC430_STATE_MASK = CC430_STATE_IDLE \<and> (133 :: u8) AND CRC_OK \<noteq> 0 \<and>
   unat (UartTxBufferLength init_modem)
     + length (egress_text (take 2 (UartRxBuffer two_messages)) 50 133) \<le> UART_BUF_LEN \<and>
   (\<exists>s' r'. send_next_msg two_messages = Inr (s', 0) \<and> rf_txfifo s' = [[2, 65, 10]] \<and>
            handle_rf_rx_packet init_modem 0 [2, 65, 10, 50, 133] = Inr r' \<and>
            take 2 (appended init_modem r') = [65, 10] \<and> rf_error r' = 0)"
proof -
  have h1: "sized two_messages"
    by code_simp
  have h2: "unat (UartRxBuffer_i two_messages) \<le> UART_BUF_LEN"
    by code_simp
  have h3: "msg_len two_messages = Inr (int 2)"
    by code_simp
  have h4: "(2 :: nat) \<le> 2"
    by simp
  have h5: "2 \<le> PAYLOAD_LEN"
    by (simp add: PAYLOAD_LEN_def)
  have h6: "sized init_modem"
    by code_simp
  have h7: "unat (UartTxBuffer_i init_modem) < UART_BUF_LEN"
    by code_simp
  have h8: "(0 :: u8) AND CC430_STATE_MASK = CC430_STATE_IDLE"
    by (simp add: CC430_STATE_IDLE_def)
  have h9: "(133 :: u8) AND CRC_OK \<noteq> 0"
    by (simp add: CRC_OK_def)
  have h10: "unat (UartTxBufferLength init_modem)
     + length (egress_text (take 2 (UartRxBuffer two_messages)) 50 133) \<le> UART_BUF_LEN"
    by code_simp
  have v: "rf_txfifo two_messages = []" "take 2 (UartRxBuffer two_messages) = [65, 10]"
    "rf_error init_modem = 0"
    by code_simp+
  have "\<exists>s' r'. send_next_msg two_messages = Inr (s', 0) \<and> rf_txfifo s' = [[2, 65, 10]] \<and>
            handle_rf_rx_packet init_modem 0 [2, 65, 10, 50, 133] = Inr r' \<and>
            take 2 (appended init_modem r') = [65, 10] \<and> rf_error r' = 0"
    using codec_round_trip [OF h1 h2 h3 h4 h5 h6 h7 h8 h9 h10] by (simp add: v)
  then show ?thesis
    using h1 h2 h3 h4 h5 h6 h7 h8 h9 h10 by blast
qed

text \<open>
  Claim C2, as stated: for every successfully decoded frame the bytes appended to the
  Egress Buffer are the payload, the decimal text of the signal strength, a space, the
  decimal text of the low 7 bits of the last status byte, and a newline. The code writes
  the decimal text of the whole status byte, whose high bit is set in every frame that
  passed the CRC check: for the status byte 133 the text is 133, not 5.
\<close>

theorem link_quality_not_masked:
  "spec_egress_text [65, 10] 50 133 = [65, 10, 53, 48, 32, 53, 10] \<and>
   (case handle_rf_rx_packet init_modem 0 [2, 65, 10, 50, 133] of
      Inl e \<Rightarrow> False
    | Inr s' \<Rightarrow>
        appended init_modem s' = [65, 10, 53, 48, 32, 49, 51, 51, 10] \<and>
        appended init_modem s' \<noteq> spec_egress_text [65, 10] 50 133)"
  by code_simp

text \<open>
  Claim C2, amended: for every successfully decoded frame that fits the Egress Buffer with
  its trailer, the bytes appended are the payload verbatim, the decimal text of the
  signal-strength byte, a space, the decimal text of the whole last status byte with the
  CRC bit in it, and a newline. The bytes before them are as they were. The trailer has at
  most 8 bytes (\<open>egress_text_length\<close>).
\<close>

theorem decoded_frame_egress_text:
  assumes sz: "sized s"
    and frame: "fifo = lenbyte # payload @ [rssi, crc]"
    and plen: "2 \<le> length payload" "length payload \<le> PAYLOAD_LEN"
    and crc: "crc AND CRC_OK \<noteq> 0"
    and idle: "RxStatus AND CC430_STATE_MASK = CC430_STATE_IDLE"
    and room: "unat (UartTxBufferLength s) + length (egress_text payload rssi crc)
                 \<le> UART_BUF_LEN"
    and cursor: "unat (UartTxBuffer_i s) < UART_BUF_LEN"
  shows "\<exists>s'. handle_rf_rx_packet s RxStatus fifo = Inr s' \<and>
              appended s s' =
                payload @ decimal (unat rssi) @ [SP] @ decimal (unat crc) @ [NL] \<and>
              take (unat (UartTxBufferLength s)) (UartTxBuffer s') =
                take (unat (UartTxBufferLength s)) (UartTxBuffer s) \<and>
              unat (UartTxBufferLength s') =
                unat (UartTxBufferLength s) + length (egress_text payload rssi crc) \<and>
              rf_error s' = rf_error s"
proof -
  have ut: "length (UartTxBuffer s) = UART_BUF_LEN" and rb: "length (RfRxBuffer s) = PACKET_LEN"
    using sz by (simp_all add: sized_def)
  show ?thesis
    using decode_ok [OF ut rb frame plen crc idle room cursor]
    by (auto simp: egress_text_def)
qed

theorem decoded_frame_egress_text_witness:
  "sized init_modem \<and> 2 \<le> length [65 :: u8, 10] \<and> length [65 :: u8, 10] \<le> PAYLOAD_LEN \<and>
   (133 :: u8) AND CRC_OK \<noteq> 0 \<and> (0 :: u8) AND CC430_STATE_MASK = CC430_STATE_IDLE \<and>
   unat (UartTxBufferLength init_modem) + length (egress_text [65, 10] 50 133) \<le> UART_BUF_LEN \<and>
   unat (UartTxBuffer_i init_modem) < UART_BUF_LEN \<and>
   (\<exists>s'. handle_rf_rx_packet init_modem 0 [2, 65, 10, 50, 133] = Inr s' \<and>
          appended init_modem s' = [65, 10, 53, 48, 32, 49, 51, 51, 10] \<and>
          unat (UartTxBufferLength s') = 9 \<and> rf_error s' = 0)"
proof -
  have h1: "sized init_modem"
    by code_simp
  have h2: "[2, 65, 10, 50, 133] = (2 :: u8) # [65, 10] @ [50, 133]"
    by simp
  have h3: "2 \<le> length [65 :: u8, 10]"
    by simp
  have h4: "length [65 :: u8, 10] \<le> PAYLOAD_LEN"
    by (simp add: PAYLOAD_LEN_def)
  have h5: "(133 :: u8) AND CRC_OK \<noteq> 0"
    by (simp add: CRC_OK_def)
  have h6: "(0 :: u8) AND CC430_STATE_MASK = CC430_STATE_IDLE"
    by (simp add: CC430_STATE_IDLE_def)
  have h7: "unat (UartTxBufferLength init_modem) + length (egress_text [65, 10] 50 133)
              \<le> UART_BUF_LEN"
    by code_simp
  have h8: "unat (UartTxBuffer_i init_modem) < UART_BUF_LEN"
    by code_simp
  have v: "[65, 10] @ decimal (unat (50 :: u8)) @ [SP] @ decimal (unat (133 :: u8)) @ [NL] =
             [65, 10, 53, 48, 32, 49, 51, 51, 10]"
    "unat (UartTxBufferLength init_modem) + length (egress_text [65, 10] 50 133) = 9"
    "rf_error init_modem = 0"
    by code_simp+
  have "\<exists>s'. handle_rf_rx_packet init_modem 0 [2, 65, 10, 50, 133] = Inr s' \<and>
          appended init_modem s' = [65, 10, 53, 48, 32, 49, 51, 51, 10] \<and>
          unat (UartTxBufferLength s') = 9 \<and> rf_error s' = 0"
    using decoded_frame_egress_text [OF h1 h2 h3 h4 h5 h6 h7 h8] unfolding v by blast
  then show ?thesis
    using h1 h3 h4 h5 h6 h7 h8 by blast
qed

text \<open>
  Claim C3, as stated: every decoded frame that cannot fit in the Egress Buffer, payload
  and diagnostic trailer together, is dropped as a unit, with the contents and the length
  of the buffer as before. The code compares only the payload with the free space. With
  89 bytes in the buffer the frame of the payload A, newline, the signal strength 50 and
  the status byte 133 needs 9 bytes and has 7: the code appends the payload, the text 50,
  a space, the placeholder X for the status byte that \<open>sc_itoa\<close> had no room for, and a
  newline.
\<close>

theorem frame_that_cannot_fit_is_appended:
  "UART_BUF_LEN - 89 < length (egress_text [65, 10] 50 133) \<and>
   (case handle_rf_rx_packet (init_modem\<lparr> UartTxBufferLength := 89 \<rparr>) 0
           [2, 65, 10, 50, 133] of
      Inl e \<Rightarrow> False
    | Inr s' \<Rightarrow>
        UartTxBufferLength s' = 96 \<and>
        UartTxBuffer s' = replicate 89 0 @ [65, 10, 53, 48, 32, 88, 10] \<and>
        UartTxBuffer s' \<noteq> UartTxBuffer (init_modem\<lparr> UartTxBufferLength := 89 \<rparr>) \<and>
        rf_error s' = 0)"
  by code_simp

text \<open>
  Claim C3, amended: every decoded frame whose payload cannot fit in the Egress Buffer is
  dropped as a unit. The contents, the length and the cursor of the buffer are as before,
  so a length within the capacity stays within it, nothing is sent to the UART, and the
  Faulted flag \<open>rf_error\<close> is as before: the drop does not set it.
\<close>

theorem frame_dropped_when_payload_does_not_fit:
  assumes rb: "length (RfRxBuffer s) = PACKET_LEN"
    and idle: "RxStatus AND CC430_STATE_MASK = CC430_STATE_IDLE"
    and len: "5 \<le> length fifo" "length fifo \<le> PACKET_LEN"
    and crc: "last fifo AND CRC_OK \<noteq> 0"
    and full: "UART_BUF_LEN < unat (UartTxBufferLength s) + (length fifo - 3)"
  shows "\<exists>s'. handle_rf_rx_packet s RxStatus fifo = Inr s' \<and>
              UartTxBuffer s' = UartTxBuffer s \<and>
              UartTxBufferLength s' = UartTxBufferLength s \<and>
              UartTxBuffer_i s' = UartTxBuffer_i s \<and> UCA0TXBUF s' = UCA0TXBUF s \<and>
              rf_error s' = rf_error s \<and> RfRxBufferLength s' = 0"
proof -
  have cap: "PACKET_LEN = 35"
    by (simp add: PACKET_LEN_def PAYLOAD_LEN_def)
  have n: "unat (word_of_nat (length fifo) :: u8) = length fifo"
    using len by (intro unat_length_small) (simp add: cap)
  have rd: "ReadBurstReg fifo (RfRxBuffer s) (length fifo) =
              Inr (fifo @ drop (length fifo) (RfRxBuffer s))"
    using len rb by (simp add: ReadBurstReg_def)
  have ne: "fifo \<noteq> []"
    using len by auto
  have "(fifo @ drop (length fifo) (RfRxBuffer s)) ! (length fifo - 1) = last fifo"
    using ne by (simp add: nth_append last_conv_nth)
  then have ld: "load (fifo @ drop (length fifo) (RfRxBuffer s)) (length fifo - 1) =
              Inr (last fifo)"
    using len by (simp add: load_def)
  have short: "\<not> length fifo < 5"
    using len by simp
  show ?thesis
    using idle short n rd ld crc full
    by (simp add: handle_rf_rx_packet_def Let_def failed_to_receive_def)
qed

theorem frame_dropped_when_payload_does_not_fit_witness:
  "length (RfRxBuffer (init_modem\<lparr> UartTxBufferLength := 95 \<rparr>)) = PACKET_LEN \<and>
   (0 :: u8) AND CC430_STATE_MASK = CC430_STATE_IDLE \<and>
   5 \<le> length [2 :: u8, 65, 10, 50, 133] \<and> length [2 :: u8, 65, 10, 50, 133] \<le> PACKET_LEN \<and>
   last [2 :: u8, 65, 10, 50, 133] AND CRC_OK \<noteq> 0 \<and>
   UART_BUF_LEN < unat (UartTxBufferLength (init_modem\<lparr> UartTxBufferLength := 95 \<rparr>))
                    + (length [2 :: u8, 65, 10, 50, 133] - 3) \<and>
   (\<exists>s'. handle_rf_rx_packet (init_modem\<lparr> UartTxBufferLength := 95 \<rparr>) 0
            [2, 65, 10, 50, 133] = Inr s' \<and>
          UartTxBuffer s' = replicate 96 0 \<and> UartTxBufferLength s' = 95 \<and>
          rf_error s' = 0 \<and> RfRxBufferLength s' = 0)"
proof -
  have h1: "length (RfRxBuffer (init_modem\<lparr> UartTxBufferLength := 95 \<rparr>)) = PACKET_LEN"
    by code_simp
  have h2: "(0 :: u8) AND CC430_STATE_MASK = CC430_STATE_IDLE"
    by (simp add: CC430_STATE_IDLE_def)
  have h3: "5 \<le> length [2 :: u8, 65, 10, 50, 133]"
    by simp
  have h4: "length [2 :: u8, 65, 10, 50, 133] \<le> PACKET_LEN"
    by (simp add: PACKET_LEN_def PAYLOAD_LEN_def)
  have h5: "last [2 :: u8, 65, 10, 50, 133] AND CRC_OK \<noteq> 0"
    by (simp add: CRC_OK_def)
  have h6: "UART_BUF_LEN < unat (UartTxBufferLength (init_modem\<lparr> UartTxBufferLength := 95 \<rparr>))
                    + (length [2 :: u8, 65, 10, 50, 133] - 3)"
    by (simp add: UART_BUF_LEN_def PAYLOAD_LEN_def)
  have v: "UartTxBuffer (init_modem\<lparr> UartTxBufferLength := 95 \<rparr>) = replicate 96 0"
    "rf_error (init_modem\<lparr> UartTxBufferLength := 95 \<rparr>) = 0"
    by (simp_all add: init_modem_def UART_BUF_LEN_def PAYLOAD_LEN_def)
  have "\<exists>s'. handle_rf_rx_packet (init_modem\<lparr> UartTxBufferLength := 95 \<rparr>) 0
            [2, 65, 10, 50, 133] = Inr s' \<and>
          UartTxBuffer s' = replicate 96 0 \<and> UartTxBufferLength s' = 95 \<and>
          rf_error s' = 0 \<and> RfRxBufferLength s' = 0"
    using frame_dropped_when_payload_does_not_fit [OF h1 h2 h3 h4 h5 h6]
    by (simp add: v) blast
  then show ?thesis
    using h1 h2 h3 h4 h5 h6 by blast
qed

text \<open>
  Claim C4: a received frame shorter than 5 bytes is rejected, and so is a frame whose last
  status byte has its high bit clear; in both cases the Faulted flag \<open>rf_error\<close> is
  set, the frame is discarded (\<open>RfRxBufferLength\<close> is 0) and nothing is appended to the
  Egress Buffer. A frame has at most \<open>PACKET_LEN\<close> bytes, the length byte, up to
  \<open>PAYLOAD_LEN\<close> payload bytes and the two status bytes, which is what the receive
  buffer holds. The code has one exit for both rejections and does not tell them apart.
\<close>

theorem bad_frame_rejected:
  assumes rb: "length (RfRxBuffer s) = PACKET_LEN"
    and bad: "length fifo < 5 \<or> (length fifo \<le> PACKET_LEN \<and> last fifo AND CRC_OK = 0)"
  shows "\<exists>s'. handle_rf_rx_packet s RxStatus fifo = Inr s' \<and>
              rf_error s' = 1 \<and> RfRxBufferLength s' = 0 \<and> rf_receiving s' = 0 \<and>
              UartTxBuffer s' = UartTxBuffer s \<and>
              UartTxBufferLength s' = UartTxBufferLength s \<and>
              UartTxBuffer_i s' = UartTxBuffer_i s \<and> UCA0TXBUF s' = UCA0TXBUF s \<and>
              appended s s' = []"
proof -
  have cap: "PACKET_LEN = 35"
    by (simp add: PACKET_LEN_def PAYLOAD_LEN_def)
  have small: "length fifo < 256"
    using bad by (auto simp: cap)
  have n: "unat (word_of_nat (length fifo) :: u8) = length fifo"
    using small by (rule unat_length_small)
  show ?thesis
  proof (cases "RxStatus AND CC430_STATE_MASK \<noteq> CC430_STATE_IDLE")
    case True
    then show ?thesis
      by (simp add: handle_rf_rx_packet_def Let_def rx_error_def failed_to_receive_def
          appended_def)
  next
    case idle: False
    show ?thesis
    proof (cases "length fifo < 5")
      case True
      then show ?thesis
        using idle n
        by (simp add: handle_rf_rx_packet_def Let_def rx_error_def failed_to_receive_def
            appended_def)
    next
      case False
      then have long: "5 \<le> length fifo" "length fifo \<le> 35" "last fifo AND CRC_OK = 0"
        using bad by (auto simp: cap)
      have rd: "ReadBurstReg fifo (RfRxBuffer s) (length fifo) =
                  Inr (fifo @ drop (length fifo) (RfRxBuffer s))"
        using long rb by (simp add: ReadBurstReg_def cap)
      have ne: "fifo \<noteq> []"
        using long by auto
      have crc: "(fifo @ drop (length fifo) (RfRxBuffer s)) ! (length fifo - 1) = last fifo"
        using ne by (simp add: nth_append last_conv_nth)
      have ld: "load (fifo @ drop (length fifo) (RfRxBuffer s)) (length fifo - 1) =
                  Inr (last fifo)"
        using long crc by (simp add: load_def)
      show ?thesis
        using idle False n rd ld long(3)
        by (simp add: handle_rf_rx_packet_def Let_def rx_error_def failed_to_receive_def
            appended_def)
    qed
  qed
qed

theorem bad_frame_rejected_witness:
  "length (RfRxBuffer init_modem) = PACKET_LEN \<and>
   length [2 :: u8, 65, 10, 50, 5] \<le> PACKET_LEN \<and> last [2 :: u8, 65, 10, 50, 5] AND CRC_OK = 0 \<and>
   length [1 :: u8, 65, 50, 133] < 5 \<and>
   (\<exists>s'. handle_rf_rx_packet init_modem 0 [2, 65, 10, 50, 5] = Inr s' \<and>
          rf_error s' = 1 \<and> RfRxBufferLength s' = 0 \<and> appended init_modem s' = []) \<and>
   (\<exists>s'. handle_rf_rx_packet init_modem 0 [1, 65, 50, 133] = Inr s' \<and>
          rf_error s' = 1 \<and> RfRxBufferLength s' = 0 \<and> appended init_modem s' = [])"
proof -
  have h1: "length (RfRxBuffer init_modem) = PACKET_LEN"
    by code_simp
  have h2: "length [2 :: u8, 65, 10, 50, 5] < 5 \<or>
            (length [2 :: u8, 65, 10, 50, 5] \<le> PACKET_LEN \<and>
             last [2 :: u8, 65, 10, 50, 5] AND CRC_OK = 0)"
    by (simp add: PACKET_LEN_def PAYLOAD_LEN_def CRC_OK_def)
  have h3: "length [1 :: u8, 65, 50, 133] < 5 \<or>
            (length [1 :: u8, 65, 50, 133] \<le> PACKET_LEN \<and>
             last [1 :: u8, 65, 50, 133] AND CRC_OK = 0)"
    by simp
  have h4: "length [2 :: u8, 65, 10, 50, 5] \<le> PACKET_LEN \<and>
            last [2 :: u8, 65, 10, 50, 5] AND CRC_OK = 0 \<and> length [1 :: u8, 65, 50, 133] < 5"
    by (simp add: PACKET_LEN_def PAYLOAD_LEN_def CRC_OK_def)
  show ?thesis
    using bad_frame_rejected [OF h1 h2, of 0] bad_frame_rejected [OF h1 h3, of 0] h1 h4
    by blast
qed

text \<open>
  Claim C5: for every sequence of serial byte arrivals, interleaved arbitrarily with
  dispatch steps, the stored length of the Ingress Buffer never exceeds its capacity.
  The code breaks it. The bytes A, newline, B arrive before the first dispatch; the first
  dispatch sends A and the newline, moves B to the front and leaves \<open>data_to_send\<close> at 2.
  The second dispatch, after the end of the transmission and before the flush timer fires,
  scans two bytes, finds the stale newline behind B, takes a message of length 2 out of a
  buffer that holds 1 byte, and \<open>UartRxBuffer_i -= len\<close> wraps to 255.
\<close>

theorem ingress_length_exceeds_capacity:
  "(case run init_system
           [MainStep, UartRx 65, UartRx 10, UartRx 66, MainStep, MainStep,
            RadioIrq 0 [], MainStep] of
      Inl e \<Rightarrow> False
    | Inr (p, s) \<Rightarrow>
        UartRxBuffer_i s = 255 \<and> UART_BUF_LEN < unat (UartRxBuffer_i s) \<and>
        rf_txfifo s = [[2, 65, 10], [2, 66, 10]])"
  by code_simp

text \<open>
  Claim C6: the dispatch takes as the message length the whole content of the Ingress
  Buffer when the flush timer fired, and otherwise the position just after the first
  terminator of the scan from the start of the buffer; after the transmission the
  residual bytes are at the start of the buffer in their order and the pending flag is
  still set; the serial input A, newline, B, newline, buffered before any dispatch, is
  sent as the two frames [2, A, newline] and [2, B, newline] in this order. The scan
  covers the first \<open>data_to_send\<close> bytes, and a message is at most 34 bytes, what the
  transmit buffer holds behind the length byte.
\<close>

theorem dispatch_message_boundaries:
  assumes sz: "sized s"
    and i: "unat (UartRxBuffer_i s) \<le> UART_BUF_LEN"
  shows "(uart_rx_timeout s = 1 \<longrightarrow> msg_len s = Inr (int (unat (UartRxBuffer_i s)))) \<and>
         (uart_rx_timeout s \<noteq> 1 \<and> p < unat (data_to_send s) \<and> p < UART_BUF_LEN \<and>
          UartRxBuffer s ! p = NL \<and> (\<forall>q<p. UartRxBuffer s ! q \<noteq> NL) \<longrightarrow>
            msg_len s = Inr (int p + 1)) \<and>
         (msg_len s = Inr (int n) \<and> 0 < n \<and> n < PACKET_LEN \<and>
          n < unat (UartRxBuffer_i s) \<and> data_to_send s \<noteq> 0 \<longrightarrow>
            (\<exists>s'. send_next_msg s = Inr (s', 0) \<and>
                   rf_txfifo s' = rf_txfifo s @ [word_of_nat n # take n (UartRxBuffer s)] \<and>
                   take (unat (UartRxBuffer_i s) - n) (UartRxBuffer s') =
                     take (unat (UartRxBuffer_i s) - n) (drop n (UartRxBuffer s)) \<and>
                   unat (UartRxBuffer_i s') = unat (UartRxBuffer_i s) - n \<and>
                   data_to_send s' = data_to_send s \<and> data_to_send s' \<noteq> 0)) \<and>
         run (AtDispatch, two_messages) [MainStep, MainStep, RadioIrq 0 [], MainStep] =
           Inr (AtListen,
                two_messages\<lparr> UartRxBuffer := [66, 10, 66, 10] @ replicate 92 0,
                                UartRxBuffer_i := 0, data_to_send := 0, rf_receiving := 0,
                                rf_transmitting := 1,
                                RfTxBuffer := [2, 66, 10] @ replicate 32 0,
                                rf_txfifo := [[2, 65, 10], [2, 66, 10]] \<rparr>)"
proof -
  have rx: "length (UartRxBuffer s) = UART_BUF_LEN" and tx: "length (RfTxBuffer s) = PACKET_LEN"
    using sz by (simp_all add: sized_def)
  have cap: "UART_BUF_LEN = 96" "PACKET_LEN = 35"
    by (simp_all add: UART_BUF_LEN_def PACKET_LEN_def PAYLOAD_LEN_def)
  have a: "uart_rx_timeout s = 1 \<longrightarrow> msg_len s = Inr (int (unat (UartRxBuffer_i s)))"
    using i sint_small [of "UartRxBuffer_i s"] by (simp add: msg_len_def cap)
  have b: "uart_rx_timeout s \<noteq> 1 \<and> p < unat (data_to_send s) \<and> p < UART_BUF_LEN \<and>
          UartRxBuffer s ! p = NL \<and> (\<forall>q<p. UartRxBuffer s ! q \<noteq> NL) \<longrightarrow>
            msg_len s = Inr (int p + 1)"
    using find_newline_hit [of 0 p "unat (data_to_send s)" "UartRxBuffer s"] rx
    by (auto simp: msg_len_def)
  have c: "msg_len s = Inr (int n) \<and> 0 < n \<and> n < PACKET_LEN \<and>
          n < unat (UartRxBuffer_i s) \<and> data_to_send s \<noteq> 0 \<longrightarrow>
            (\<exists>s'. send_next_msg s = Inr (s', 0) \<and>
                   rf_txfifo s' = rf_txfifo s @ [word_of_nat n # take n (UartRxBuffer s)] \<and>
                   take (unat (UartRxBuffer_i s) - n) (UartRxBuffer s') =
                     take (unat (UartRxBuffer_i s) - n) (drop n (UartRxBuffer s)) \<and>
                   unat (UartRxBuffer_i s') = unat (UartRxBuffer_i s) - n \<and>
                   data_to_send s' = data_to_send s \<and> data_to_send s' \<noteq> 0)"
  proof (intro impI, elim conjE)
    assume h: "msg_len s = Inr (int n)" "0 < n" "n < PACKET_LEN"
      "n < unat (UartRxBuffer_i s)" "data_to_send s \<noteq> 0"
    have n34: "n \<le> 34"
      using h(3) by (simp add: cap)
    obtain s' where s': "send_next_msg s = Inr (s', 0)"
        "rf_txfifo s' = rf_txfifo s @ [word_of_nat n # take n (UartRxBuffer s)]"
        "UartRxBuffer_i s' = UartRxBuffer_i s - word_of_nat n"
        "data_to_send s' = data_to_send s"
        "take (unat (UartRxBuffer_i s) - n) (UartRxBuffer s') =
           take (unat (UartRxBuffer_i s) - n) (drop n (UartRxBuffer s))"
      using send_next_msg_ok [OF h(1) h(2) n34 rx tx i] h(4) by auto
    have "word_of_nat n \<le> UartRxBuffer_i s"
      using h(4) n34 by (simp add: word_le_nat_alt unat_of_nat)
    then have "unat (UartRxBuffer_i s - word_of_nat n) = unat (UartRxBuffer_i s) - n"
      using n34 by (simp add: unat_sub unat_of_nat)
    then show "\<exists>s'. send_next_msg s = Inr (s', 0) \<and>
                   rf_txfifo s' = rf_txfifo s @ [word_of_nat n # take n (UartRxBuffer s)] \<and>
                   take (unat (UartRxBuffer_i s) - n) (UartRxBuffer s') =
                     take (unat (UartRxBuffer_i s) - n) (drop n (UartRxBuffer s)) \<and>
                   unat (UartRxBuffer_i s') = unat (UartRxBuffer_i s) - n \<and>
                   data_to_send s' = data_to_send s \<and> data_to_send s' \<noteq> 0"
      using s' h(5) by (intro exI [of _ s']) simp
  qed
  have d: "run (AtDispatch, two_messages) [MainStep, MainStep, RadioIrq 0 [], MainStep] =
           Inr (AtListen,
                two_messages\<lparr> UartRxBuffer := [66, 10, 66, 10] @ replicate 92 0,
                                UartRxBuffer_i := 0, data_to_send := 0, rf_receiving := 0,
                                rf_transmitting := 1,
                                RfTxBuffer := [2, 66, 10] @ replicate 32 0,
                                rf_txfifo := [[2, 65, 10], [2, 66, 10]] \<rparr>)"
    by code_simp
  show ?thesis
    using a b c d by blast
qed
theorem dispatch_message_boundaries_witness:
  "sized two_messages \<and> unat (UartRxBuffer_i two_messages) \<le> UART_BUF_LEN \<and>
   msg_len two_messages = Inr 2 \<and>
   (\<exists>s'. send_next_msg two_messages = Inr (s', 0) \<and> rf_txfifo s' = [[2, 65, 10]] \<and>
          take 2 (UartRxBuffer s') = [66, 10] \<and> unat (UartRxBuffer_i s') = 2 \<and>
          data_to_send s' = 4)"
proof -
  have h1: "sized two_messages"
    by code_simp
  have h2: "unat (UartRxBuffer_i two_messages) \<le> UART_BUF_LEN"
    by code_simp
  note T = dispatch_message_boundaries [OF h1 h2, of 1 2]
  have v: "uart_rx_timeout two_messages = 0" "data_to_send two_messages = 4"
    "UartRxBuffer_i two_messages = 4" "rf_txfifo two_messages = []"
    "UartRxBuffer two_messages = [65, 10, 66, 10] @ replicate 92 0"
    by (simp_all add: two_messages_def init_modem_def)
  have c: "UART_BUF_LEN = 96" "PACKET_LEN = 35" "NL = 10"
    by (simp_all add: UART_BUF_LEN_def PACKET_LEN_def PAYLOAD_LEN_def NL_def)
  have m: "msg_len two_messages = Inr 2"
    using T by (simp add: v c)
  have "\<exists>s'. send_next_msg two_messages = Inr (s', 0) \<and> rf_txfifo s' = [[2, 65, 10]] \<and>
          take 2 (UartRxBuffer s') = [66, 10] \<and> unat (UartRxBuffer_i s') = 2 \<and>
          data_to_send s' = 4"
    using T m by (simp add: v c) blast
  then show ?thesis
    using h1 h2 m by blast
qed

text \<open>
  Claim C7: in every reachable state at most one of radio transmission and radio
  reception is active, the transmitting and the receiving flag are never both set.
  A state is reachable when some sequence of interrupts and main-loop steps leads to it
  from the initial state without an access outside an array. The invariant holds because
  \<open>send_next_msg\<close> clears the receiving flag before it sets the transmitting flag
  (\<open>send_next_msg_radio\<close>), the main loop sets the receiving flag only when both flags are
  clear (\<open>main_listen_radio\<close>), and the handlers only clear the flags.
\<close>

theorem radio_never_both_active:
  assumes "run init_system es = Inr (p, s)"
  shows "\<not> (rf_transmitting s \<noteq> 0 \<and> rf_receiving s \<noteq> 0)"
proof -
  have "half_duplex (snd init_system)"
    by (simp add: init_system_def init_modem_def half_duplex_def)
  then have "half_duplex (snd (p, s))"
    using run_half_duplex [OF assms] by simp
  then show ?thesis
    by (auto simp: half_duplex_def)
qed

theorem radio_never_both_active_witness:
  "\<exists>p s. run init_system [MainStep, UartRx 65, UartRx 10, MainStep] = Inr (p, s) \<and>
          rf_transmitting s = 1 \<and> rf_txfifo s = [[2, 65, 10]] \<and>
          \<not> (rf_transmitting s \<noteq> 0 \<and> rf_receiving s \<noteq> 0)"
proof -
  have "case run init_system [MainStep, UartRx 65, UartRx 10, MainStep] of
          Inl e \<Rightarrow> False
        | Inr (p, s) \<Rightarrow> rf_transmitting s = 1 \<and> rf_txfifo s = [[2, 65, 10]]"
    by code_simp
  then obtain p s where r:
      "run init_system [MainStep, UartRx 65, UartRx 10, MainStep] = Inr (p, s)"
      "rf_transmitting s = 1" "rf_txfifo s = [[2, 65, 10]]"
    by (auto split: sum.splits)
  show ?thesis
    using radio_never_both_active [OF r(1)] r by blast
qed

text \<open>
  Claim C8: the Link Supervisor is woken from its low-power wait whenever a terminator
  is accepted and whenever the flush timer fires. The serial handler clears the low-power
  bits on exit after a terminator, and the main loop dispatches. The timer handler never
  does: after the byte A and the timer, the main loop is still in its wait, with the
  pending flag and the timeout flag set and nothing transmitted.
\<close>

theorem timer_isr_does_not_wake:
  "snd (TIMER1_A0_ISR s) = False \<and>
   (case run init_system [MainStep, UartRx 65, TimerIrq, MainStep] of
      Inl e \<Rightarrow> False
    | Inr (p, s') \<Rightarrow>
        p = Asleep \<and> data_to_send s' = 1 \<and> uart_rx_timeout s' = 1 \<and> rf_txfifo s' = []) \<and>
   (case run init_system [MainStep, UartRx 65, UartRx 10, MainStep] of
      Inl e \<Rightarrow> False
    | Inr (p, s') \<Rightarrow> p = AtListen \<and> rf_txfifo s' = [[2, 65, 10]])"
proof -
  have "snd (TIMER1_A0_ISR s) = False"
    by (simp add: TIMER1_A0_ISR_def Let_def)
  moreover have "(case run init_system [MainStep, UartRx 65, TimerIrq, MainStep] of
      Inl e \<Rightarrow> False
    | Inr (p, s') \<Rightarrow>
        p = Asleep \<and> data_to_send s' = 1 \<and> uart_rx_timeout s' = 1 \<and> rf_txfifo s' = [])"
    by code_simp
  moreover have "(case run init_system [MainStep, UartRx 65, UartRx 10, MainStep] of
      Inl e \<Rightarrow> False
    | Inr (p, s') \<Rightarrow> p = AtListen \<and> rf_txfifo s' = [[2, 65, 10]])"
    by code_simp
  ultimately show ?thesis by blast
qed

text \<open>
  Claim C9: every received serial byte that is not a terminator rearms the Flush Timer,
  also when it is discarded because the Ingress Buffer is full. In the code the handler
  stops the timer first and returns at the full buffer before it sets the timer again:
  the byte is dropped, the buffer and its length stay, and the timer is left stopped.
  After 96 bytes without a terminator the next byte stops the running timer, so nothing
  marks the buffered bytes for dispatch any more: a newline that follows is dropped as
  well, the timer does not fire, and the main loop stays in its wait.
\<close>

theorem overflow_byte_stops_flush_timer:
  "handle_uart_rx_byte (s\<lparr> UartRxBuffer_i := 96 \<rparr>) b =
     Inr (s\<lparr> UartRxBuffer_i := 96, timer_running := False, uart_rx_timeout := 0 \<rparr>, 0) \<and>
   (case run init_system (MainStep # replicate 96 (UartRx 65)) of
      Inl e \<Rightarrow> False
    | Inr (p, s1) \<Rightarrow>
        UartRxBuffer_i s1 = 96 \<and> timer_running s1 \<and> data_to_send s1 = 0 \<and>
        (case step (p, s1) (UartRx 66) of
           Inl e \<Rightarrow> False
         | Inr (p', s2) \<Rightarrow>
             \<not> timer_running s2 \<and> data_to_send s2 = 0 \<and> UartRxBuffer s2 = UartRxBuffer s1 \<and>
             UartRxBuffer_i s2 = 96 \<and> p' = Asleep \<and>
             run (p', s2) [UartRx 10, TimerIrq, MainStep] = Inr (p', s2)))"
proof -
  have "handle_uart_rx_byte (s\<lparr> UartRxBuffer_i := 96 \<rparr>) b =
     Inr (s\<lparr> UartRxBuffer_i := 96, timer_running := False, uart_rx_timeout := 0 \<rparr>, 0)"
    by (simp add: handle_uart_rx_byte_def timer_clear_def UART_BUF_LEN_def PAYLOAD_LEN_def)
  moreover have "(case run init_system (MainStep # replicate 96 (UartRx 65)) of
      Inl e \<Rightarrow> False
    | Inr (p, s1) \<Rightarrow>
        UartRxBuffer_i s1 = 96 \<and> timer_running s1 \<and> data_to_send s1 = 0 \<and>
        (case step (p, s1) (UartRx 66) of
           Inl e \<Rightarrow> False
         | Inr (p', s2) \<Rightarrow>
             \<not> timer_running s2 \<and> data_to_send s2 = 0 \<and> UartRxBuffer s2 = UartRxBuffer s1 \<and>
             UartRxBuffer_i s2 = 96 \<and> p' = Asleep \<and>
             run (p', s2) [UartRx 10, TimerIrq, MainStep] = Inr (p', s2)))"
    by code_simp
  ultimately show ?thesis by blast
qed

text \<open>
  Claim C10: for some arrival sequence, a byte that is not a terminator and arrives after
  the flush timer has fired but before the dispatch clears the timeout flag while the
  pending flag stays 1; the dispatch then scans one byte, finds no terminator and clears
  the Ingress Buffer without transmitting. The sequence: the byte A, the timer, the byte
  B, a received radio frame that ends the low-power wait, the dispatch.
\<close>

theorem byte_after_flush_discards_message:
  "(case run init_system [MainStep, UartRx 65, TimerIrq] of
      Inl e \<Rightarrow> False
    | Inr (p, s) \<Rightarrow>
        p = Asleep \<and> uart_rx_timeout s = 1 \<and> data_to_send s = 1 \<and> UartRxBuffer_i s = 1) \<and>
   (case run init_system [MainStep, UartRx 65, TimerIrq, UartRx 66] of
      Inl e \<Rightarrow> False
    | Inr (p, s) \<Rightarrow>
        p = Asleep \<and> uart_rx_timeout s = 0 \<and> data_to_send s = 1 \<and> UartRxBuffer_i s = 2 \<and>
        take 2 (UartRxBuffer s) = [65, 66] \<and> msg_len s = Inr (- 1)) \<and>
   (case run init_system
           [MainStep, UartRx 65, TimerIrq, UartRx 66,
            RadioIrq 0 [2, 72, 10, 50, 133], MainStep] of
      Inl e \<Rightarrow> False
    | Inr (p, s) \<Rightarrow>
        UartRxBuffer_i s = 0 \<and> data_to_send s = 0 \<and> rf_txfifo s = [] \<and>
        rf_transmitting s = 0)"
  by code_simp

end
